theory Spec2Isabelle
  imports Main
begin

section \<open>Character classes of the C locale\<close>

text \<open>
  The source classifies bytes with \<^verbatim>\<open>isspace\<close>, \<^verbatim>\<open>isdigit\<close>, \<^verbatim>\<open>isalpha\<close>, \<^verbatim>\<open>isalnum\<close>,
  \<^verbatim>\<open>ispunct\<close> and \<^verbatim>\<open>tolower\<close> from \<^verbatim>\<open><cctype>\<close>. They are modelled by their
  values in the default "C" locale, on the byte code of the character; every byte from
  128 on is in no class.
\<close>

definition code :: "char \<Rightarrow> nat" where
  "code c = of_char c"

definition isspace :: "char \<Rightarrow> bool" where
  "isspace c = (code c = 32 \<or> (9 \<le> code c \<and> code c \<le> 13))"

definition isdigit :: "char \<Rightarrow> bool" where
  "isdigit c = (48 \<le> code c \<and> code c \<le> 57)"

definition isupper :: "char \<Rightarrow> bool" where
  "isupper c = (65 \<le> code c \<and> code c \<le> 90)"

definition islower :: "char \<Rightarrow> bool" where
  "islower c = (97 \<le> code c \<and> code c \<le> 122)"

definition isalpha :: "char \<Rightarrow> bool" where
  "isalpha c = (isupper c \<or> islower c)"

definition isalnum :: "char \<Rightarrow> bool" where
  "isalnum c = (isalpha c \<or> isdigit c)"

definition ispunct :: "char \<Rightarrow> bool" where
  "ispunct c = ((33 \<le> code c \<and> code c \<le> 47) \<or> (58 \<le> code c \<and> code c \<le> 64)
     \<or> (91 \<le> code c \<and> code c \<le> 96) \<or> (123 \<le> code c \<and> code c \<le> 126))"

definition tolower :: "char \<Rightarrow> char" where
  "tolower c = (if isupper c then char_of (code c + 32) else c)"

definition NUL :: char where
  "NUL = CHR 0x00"

definition newline :: char where
  "newline = CHR ''\<newline>''"

definition dquote :: char where
  "dquote = CHR 0x22"

definition underscore :: char where
  "underscore = CHR ''_''"

section \<open>Tokens\<close>

datatype TokenType =
  KEYWORD | IDENTIFIER | LITERAL | OPERATOR | SYMBOL | COMMENT | STRING_LITERAL | END_OF_FILE

text \<open>\<^verbatim>\<open>struct Token { TokenType type; std::string value; int line; }\<close>. A line number
  is a 32-bit \<^verbatim>\<open>int\<close>, modelled as an integer between \<open>-2^31\<close> and \<open>2^31 - 1\<close>.
  The only arithmetic on line numbers is \<^verbatim>\<open>line++\<close> in the lexer. Beyond \<open>2^31 - 1\<close> C++
  leaves the result of the increment open; the model takes the two's complement
  wrap-around that the usual compilers produce.\<close>

definition int32 :: "int \<Rightarrow> int" where
  "int32 i = (i + 2147483648) mod 4294967296 - 2147483648"

record Token =
  tok_type :: TokenType
  tok_value :: string
  tok_line :: int

definition keywords_set :: "string list" where
  "keywords_set = [''select'', ''insert'', ''update'', ''delete'', ''create'', ''table'',
     ''begin'', ''end'', ''declare'', ''do'', ''values'']"

section \<open>Lexer\<close>

text \<open>The private fields of \<^verbatim>\<open>class Lexer\<close>: the input, the read position and
  the current line.\<close>

record Lexer =
  input :: string
  lex_position :: nat
  lex_line :: int

definition new_Lexer :: "string \<Rightarrow> Lexer" where
  "new_Lexer s = \<lparr>input = s, lex_position = 0, lex_line = 1\<rparr>"

definition peek :: "Lexer \<Rightarrow> char" where
  "peek L = (if lex_position L < length (input L) then input L ! lex_position L else NUL)"

text \<open>\<^verbatim>\<open>advance\<close> returns the current character and moves on, also beyond the end of
  the input, where \<^verbatim>\<open>peek\<close> goes on answering NUL.\<close>

definition advance :: "Lexer \<Rightarrow> char \<times> Lexer" where
  "advance L =
     (let current = peek L;
          L1 = L\<lparr>lex_position := lex_position L + 1\<rparr>;
          L2 = (if current = newline then L1\<lparr>lex_line := int32 (lex_line L1 + 1)\<rparr> else L1)
      in (current, L2))"

lemma input_advance [simp]: "input (snd (advance L)) = input L"
  by (simp add: advance_def Let_def)

lemma position_advance [simp]: "lex_position (snd (advance L)) = Suc (lex_position L)"
  by (simp add: advance_def Let_def)

lemma fst_advance [simp]: "fst (advance L) = peek L"
  by (simp add: advance_def Let_def)

lemma peek_in_range: "peek L \<noteq> NUL \<Longrightarrow> lex_position L < length (input L)"
  by (simp add: peek_def split: if_splits)

lemma not_NUL_classes [simp]:
  "\<not> isspace NUL" "\<not> isdigit NUL" "\<not> isalpha NUL" "\<not> isalnum NUL" "\<not> ispunct NUL"
  "NUL \<noteq> underscore" "NUL \<noteq> dquote" "NUL \<noteq> newline"
  "underscore \<noteq> NUL" "dquote \<noteq> NUL" "newline \<noteq> NUL"
  by (simp_all add: isspace_def isdigit_def isalpha_def isalnum_def ispunct_def isupper_def
      islower_def NUL_def code_def underscore_def dquote_def newline_def)

function skipWhitespace :: "Lexer \<Rightarrow> Lexer" where
  "skipWhitespace L = (if isspace (peek L) then skipWhitespace (snd (advance L)) else L)"
  by pat_completeness auto
termination
proof (relation "measure (\<lambda>L. length (input L) - lex_position L)")
  show "wf (measure (\<lambda>L. length (input L) - lex_position L))" by simp
next
  fix L assume "isspace (peek L)"
  then have "peek L \<noteq> NUL" by auto
  then have "lex_position L < length (input L)" by (rule peek_in_range)
  then show "(snd (advance L), L) \<in> measure (\<lambda>L. length (input L) - lex_position L)"
    by simp
qed

declare skipWhitespace.simps [simp del]

text \<open>The loop of \<^verbatim>\<open>handleIdentifierOrKeyword\<close>:
  \<^verbatim>\<open>while (isalnum(peek()) || peek() == '_') value += advance();\<close>\<close>

function identifier_loop :: "Lexer \<Rightarrow> string \<Rightarrow> string \<times> Lexer" where
  "identifier_loop L v =
     (if isalnum (peek L) \<or> peek L = underscore
      then identifier_loop (snd (advance L)) (v @ [fst (advance L)])
      else (v, L))"
  by pat_completeness auto
termination
proof (relation "measure (\<lambda>(L, v). length (input L) - lex_position L)")
  show "wf (measure (\<lambda>(L, v). length (input L) - lex_position L))" by simp
next
  fix L :: Lexer and v :: string
  assume "isalnum (peek L) \<or> peek L = underscore"
  then have "peek L \<noteq> NUL" by auto
  then have "lex_position L < length (input L)" by (rule peek_in_range)
  then show "((snd (advance L), v @ [fst (advance L)]), (L, v))
      \<in> measure (\<lambda>(L, v). length (input L) - lex_position L)"
    by simp
qed

declare identifier_loop.simps [simp del]

definition handleIdentifierOrKeyword :: "Lexer \<Rightarrow> Token \<times> Lexer" where
  "handleIdentifierOrKeyword L =
     (let (v, L1) = identifier_loop L [];
          lowercaseValue = map tolower v
      in if lowercaseValue \<in> set keywords_set
         then (\<lparr>tok_type = KEYWORD, tok_value = v, tok_line = lex_line L1\<rparr>, L1)
         else (\<lparr>tok_type = IDENTIFIER, tok_value = v, tok_line = lex_line L1\<rparr>, L1))"

text \<open>The loop of \<^verbatim>\<open>handleLiteral\<close>: \<^verbatim>\<open>while (isdigit(peek())) value += advance();\<close>\<close>

function literal_loop :: "Lexer \<Rightarrow> string \<Rightarrow> string \<times> Lexer" where
  "literal_loop L v =
     (if isdigit (peek L)
      then literal_loop (snd (advance L)) (v @ [fst (advance L)])
      else (v, L))"
  by pat_completeness auto
termination
proof (relation "measure (\<lambda>(L, v). length (input L) - lex_position L)")
  show "wf (measure (\<lambda>(L, v). length (input L) - lex_position L))" by simp
next
  fix L :: Lexer and v :: string
  assume "isdigit (peek L)"
  then have "peek L \<noteq> NUL" by auto
  then have "lex_position L < length (input L)" by (rule peek_in_range)
  then show "((snd (advance L), v @ [fst (advance L)]), (L, v))
      \<in> measure (\<lambda>(L, v). length (input L) - lex_position L)"
    by simp
qed

declare literal_loop.simps [simp del]

definition handleLiteral :: "Lexer \<Rightarrow> Token \<times> Lexer" where
  "handleLiteral L =
     (let (v, L1) = literal_loop L []
      in (\<lparr>tok_type = LITERAL, tok_value = v, tok_line = lex_line L1\<rparr>, L1))"

definition handleSymbol :: "Lexer \<Rightarrow> Token \<times> Lexer" where
  "handleSymbol L =
     (let (c, L1) = advance L
      in (\<lparr>tok_type = SYMBOL, tok_value = [c], tok_line = lex_line L1\<rparr>, L1))"

text \<open>The loop of \<^verbatim>\<open>handleStringLiteral\<close>:
  \<^verbatim>\<open>while (peek() != '"' && peek() != '\0') value += advance();\<close>\<close>

function string_loop :: "Lexer \<Rightarrow> string \<Rightarrow> string \<times> Lexer" where
  "string_loop L v =
     (if peek L \<noteq> dquote \<and> peek L \<noteq> NUL
      then string_loop (snd (advance L)) (v @ [fst (advance L)])
      else (v, L))"
  by pat_completeness auto
termination
proof (relation "measure (\<lambda>(L, v). length (input L) - lex_position L)")
  show "wf (measure (\<lambda>(L, v). length (input L) - lex_position L))" by simp
next
  fix L :: Lexer and v :: string
  assume "peek L \<noteq> dquote \<and> peek L \<noteq> NUL"
  then have "lex_position L < length (input L)" by (simp add: peek_in_range)
  then show "((snd (advance L), v @ [fst (advance L)]), (L, v))
      \<in> measure (\<lambda>(L, v). length (input L) - lex_position L)"
    by simp
qed

declare string_loop.simps [simp del]

definition handleStringLiteral :: "Lexer \<Rightarrow> Token \<times> Lexer" where
  "handleStringLiteral L =
     (let L1 = snd (advance L);
          (v, L2) = string_loop L1 [];
          L3 = (if peek L2 = dquote then snd (advance L2) else L2)
      in (\<lparr>tok_type = STRING_LITERAL, tok_value = v, tok_line = lex_line L3\<rparr>, L3))"


subsection \<open>Every handler keeps the input and moves forward\<close>

lemma skipWhitespace_frame:
  "input (skipWhitespace L) = input L \<and> lex_position L \<le> lex_position (skipWhitespace L)"
proof (induction L rule: skipWhitespace.induct)
  case (1 L)
  show ?case
  proof (cases "isspace (peek L)")
    case True
    with "1" show ?thesis by (simp add: skipWhitespace.simps [of L])
  next
    case False
    then show ?thesis by (simp add: skipWhitespace.simps [of L])
  qed
qed

lemma identifier_loop_frame:
  "input (snd (identifier_loop L v)) = input L
   \<and> lex_position L \<le> lex_position (snd (identifier_loop L v))"
proof (induction L v rule: identifier_loop.induct)
  case (1 L v)
  show ?case
  proof (cases "isalnum (peek L) \<or> peek L = underscore")
    case True
    with "1" show ?thesis by (simp add: identifier_loop.simps [of L v])
  next
    case False
    then show ?thesis by (simp add: identifier_loop.simps [of L v])
  qed
qed

lemma literal_loop_frame:
  "input (snd (literal_loop L v)) = input L
   \<and> lex_position L \<le> lex_position (snd (literal_loop L v))"
proof (induction L v rule: literal_loop.induct)
  case (1 L v)
  show ?case
  proof (cases "isdigit (peek L)")
    case True
    with "1" show ?thesis by (simp add: literal_loop.simps [of L v])
  next
    case False
    then show ?thesis by (simp add: literal_loop.simps [of L v])
  qed
qed

lemma string_loop_frame:
  "input (snd (string_loop L v)) = input L
   \<and> lex_position L \<le> lex_position (snd (string_loop L v))"
proof (induction L v rule: string_loop.induct)
  case (1 L v)
  show ?case
  proof (cases "peek L \<noteq> dquote \<and> peek L \<noteq> NUL")
    case True
    with "1" show ?thesis by (simp add: string_loop.simps [of L v])
  next
    case False
    then show ?thesis by (auto simp: string_loop.simps [of L v])
  qed
qed

lemma handleIdentifierOrKeyword_frame:
  assumes "isalpha (peek L) \<or> peek L = underscore"
  shows "input (snd (handleIdentifierOrKeyword L)) = input L
    \<and> lex_position L < lex_position (snd (handleIdentifierOrKeyword L))"
proof -
  from assms have c: "isalnum (peek L) \<or> peek L = underscore"
    by (auto simp: isalnum_def)
  have "snd (handleIdentifierOrKeyword L) = snd (identifier_loop L [])"
    by (simp add: handleIdentifierOrKeyword_def split: prod.splits)
  also from c have "\<dots> = snd (identifier_loop (snd (advance L)) [peek L])"
    by (simp add: identifier_loop.simps [of L "[]"])
  finally show ?thesis
    using identifier_loop_frame [of "snd (advance L)" "[peek L]"] by simp
qed

lemma handleLiteral_frame:
  assumes "isdigit (peek L)"
  shows "input (snd (handleLiteral L)) = input L
    \<and> lex_position L < lex_position (snd (handleLiteral L))"
proof -
  have "snd (handleLiteral L) = snd (literal_loop L [])"
    by (simp add: handleLiteral_def split: prod.splits)
  also from assms have "\<dots> = snd (literal_loop (snd (advance L)) [peek L])"
    by (simp add: literal_loop.simps [of L "[]"])
  finally show ?thesis
    using literal_loop_frame [of "snd (advance L)" "[peek L]"] by simp
qed

lemma handleSymbol_frame:
  "input (snd (handleSymbol L)) = input L
    \<and> lex_position L < lex_position (snd (handleSymbol L))"
  by (simp add: handleSymbol_def advance_def Let_def)

lemma handleStringLiteral_frame:
  "input (snd (handleStringLiteral L)) = input L
    \<and> lex_position L < lex_position (snd (handleStringLiteral L))"
proof -
  obtain v L2 where l: "string_loop (snd (advance L)) [] = (v, L2)"
    by (cases "string_loop (snd (advance L)) []")
  from string_loop_frame [of "snd (advance L)" "[]"] l
  have "input L2 = input L" "Suc (lex_position L) \<le> lex_position L2" by simp_all
  with l show ?thesis
    by (simp add: handleStringLiteral_def Let_def)
qed

subsection \<open>The main loop\<close>

text \<open>\<^verbatim>\<open>Lexer::tokenize\<close>: the \<^verbatim>\<open>while (position < input.length())\<close> loop, with the
  vector of tokens built so far, then the final \<^verbatim>\<open>END_OF_FILE\<close> token.\<close>

function tokenize_loop :: "Lexer \<Rightarrow> Token list \<Rightarrow> Token list" where
  "tokenize_loop L tokens =
     (if lex_position L < length (input L) then
        (let L1 = skipWhitespace L;
             current = peek L1
         in if isalpha current \<or> current = underscore then
              tokenize_loop (snd (handleIdentifierOrKeyword L1))
                (tokens @ [fst (handleIdentifierOrKeyword L1)])
            else if isdigit current then
              tokenize_loop (snd (handleLiteral L1)) (tokens @ [fst (handleLiteral L1)])
            else if current = dquote then
              tokenize_loop (snd (handleStringLiteral L1))
                (tokens @ [fst (handleStringLiteral L1)])
            else if ispunct current then
              tokenize_loop (snd (handleSymbol L1)) (tokens @ [fst (handleSymbol L1)])
            else
              tokenize_loop (snd (advance L1)) tokens)
      else tokens @ [\<lparr>tok_type = END_OF_FILE, tok_value = [], tok_line = lex_line L\<rparr>])"
  by pat_completeness auto
termination
proof (relation "measure (\<lambda>(L, tokens). length (input L) - lex_position L)")
  show "wf (measure (\<lambda>(L, tokens). length (input L) - lex_position L))" by simp
next
  fix L :: Lexer and tokens :: "Token list" and L1 current
  assume a: "lex_position L < length (input L)" "L1 = skipWhitespace L" "current = peek L1"
    "isalpha current \<or> current = underscore"
  then show "((snd (handleIdentifierOrKeyword L1), tokens @ [fst (handleIdentifierOrKeyword L1)]),
      (L, tokens)) \<in> measure (\<lambda>(L, tokens). length (input L) - lex_position L)"
    using handleIdentifierOrKeyword_frame [of L1] skipWhitespace_frame [of L] by auto
next
  fix L :: Lexer and tokens :: "Token list" and L1 current
  assume a: "lex_position L < length (input L)" "L1 = skipWhitespace L" "current = peek L1"
    "isdigit current"
  then show "((snd (handleLiteral L1), tokens @ [fst (handleLiteral L1)]), (L, tokens))
      \<in> measure (\<lambda>(L, tokens). length (input L) - lex_position L)"
    using handleLiteral_frame [of L1] skipWhitespace_frame [of L] by auto
next
  fix L :: Lexer and tokens :: "Token list" and L1 current
  assume a: "lex_position L < length (input L)" "L1 = skipWhitespace L"
  then show "((snd (handleStringLiteral L1), tokens @ [fst (handleStringLiteral L1)]), (L, tokens))
      \<in> measure (\<lambda>(L, tokens). length (input L) - lex_position L)"
    using handleStringLiteral_frame [of L1] skipWhitespace_frame [of L] by auto
next
  fix L :: Lexer and tokens :: "Token list" and L1 current
  assume a: "lex_position L < length (input L)" "L1 = skipWhitespace L"
  then show "((snd (handleSymbol L1), tokens @ [fst (handleSymbol L1)]), (L, tokens))
      \<in> measure (\<lambda>(L, tokens). length (input L) - lex_position L)"
    using handleSymbol_frame [of L1] skipWhitespace_frame [of L] by auto
next
  fix L :: Lexer and tokens :: "Token list" and L1 current
  assume a: "lex_position L < length (input L)" "L1 = skipWhitespace L"
  then show "((snd (advance L1), tokens), (L, tokens))
      \<in> measure (\<lambda>(L, tokens). length (input L) - lex_position L)"
    using skipWhitespace_frame [of L] by auto
qed

declare tokenize_loop.simps [simp del]

definition tokenize :: "string \<Rightarrow> Token list" where
  "tokenize s = tokenize_loop (new_Lexer s) []"


section \<open>Preprocessor\<close>

text \<open>\<^verbatim>\<open>std::string::find(str, pos)\<close>: the least index from \<open>pos\<close> on at which \<open>str\<close>
  occurs in the line, \<^verbatim>\<open>npos\<close> (here \<open>None\<close>) when there is none. The empty string occurs
  at every index up to the length of the line.\<close>

definition find_from :: "string \<Rightarrow> string \<Rightarrow> nat \<Rightarrow> nat option" where
  "find_from line str pos =
     List.find (\<lambda>i. take (length str) (drop i line) = str)
       [pos ..< Suc (length line) - length str]"

text \<open>\<^verbatim>\<open>line.replace(pos, len, str)\<close>.\<close>

definition replace :: "string \<Rightarrow> nat \<Rightarrow> nat \<Rightarrow> string \<Rightarrow> string" where
  "replace line pos len str = take pos line @ str @ drop (pos + len) line"

text \<open>The lines that the loop \<^verbatim>\<open>while (std::getline(stream, line))\<close> reads: the
  newline ends a line and is dropped, a last line needs no newline, and the loop ends when
  nothing is left.\<close>

function getlines :: "string \<Rightarrow> string list" where
  "getlines s =
     (if s = [] then []
      else takeWhile (\<lambda>c. c \<noteq> newline) s # getlines (drop 1 (dropWhile (\<lambda>c. c \<noteq> newline) s)))"
  by pat_completeness auto
termination
proof (relation "measure length")
  show "wf (measure length)" by simp
next
  fix s :: string
  assume "s \<noteq> []"
  then have "0 < length s" by simp
  moreover have "length (dropWhile (\<lambda>c. c \<noteq> newline) s) \<le> length s"
    by (rule length_dropWhile_le)
  ultimately have "length (dropWhile (\<lambda>c. c \<noteq> newline) s) - 1 < length s"
    by arith
  then show "(drop 1 (dropWhile (\<lambda>c. c \<noteq> newline) s), s) \<in> measure length"
    by simp
qed

declare getlines.simps [simp del]

text \<open>\<^verbatim>\<open>stream >> word\<close> on a string stream: leading whitespace is skipped, then the
  characters up to the next whitespace are read. The result is the word and what is left
  of the stream. When nothing but whitespace is left the extraction fails: the word stays
  empty and so does all that is read from the stream afterwards.\<close>

definition extract_word :: "string \<Rightarrow> string \<times> string" where
  "extract_word s =
     (let s1 = dropWhile isspace s
      in (takeWhile (\<lambda>c. \<not> isspace c) s1, dropWhile (\<lambda>c. \<not> isspace c) s1))"

text \<open>\<^verbatim>\<open>std::regex_replace(value, std::regex("^\\s+|\\s+$"), "")\<close>.\<close>

definition trim :: "string \<Rightarrow> string" where
  "trim s = rev (dropWhile isspace (rev (dropWhile isspace s)))"

text \<open>The global \<^verbatim>\<open>preprocessorMap\<close> is an \<^verbatim>\<open>unordered_map\<close>, whose iteration order
  C++ leaves open. It is modelled as an association list with one entry per key, in the
  order in which the loop over the entries visits them: \<^verbatim>\<open>preprocessorMap[key] = value\<close>
  overwrites the entry of a key in place and puts a new key in front, which is the order
  that the usual library gives a table of a few macros (the newest first).\<close>

type_synonym macro_table = "(string \<times> string) list"

fun map_overwrite :: "macro_table \<Rightarrow> string \<Rightarrow> string \<Rightarrow> macro_table" where
  "map_overwrite [] key v = []"
| "map_overwrite ((k, w) # m) key v =
     (if k = key then (key, v) # m else (k, w) # map_overwrite m key v)"

definition map_assign :: "macro_table \<Rightarrow> string \<Rightarrow> string \<Rightarrow> macro_table" where
  "map_assign m key v =
     (if key \<in> set (map fst m) then map_overwrite m key v else (key, v) # m)"

lemma map_overwrite_subset: "set (map_overwrite m key v) \<subseteq> insert (key, v) (set m)"
  by (induction m) (auto split: if_splits)

lemma map_assign_first [simp]: "map_assign [] key v = [(key, v)]"
  by (simp add: map_assign_def)

lemma map_assign_subset: "set (map_assign m key v) \<subseteq> insert (key, v) (set m)"
  using map_overwrite_subset [of m key v] by (auto simp: map_assign_def)

text \<open>The directive branch of \<^verbatim>\<open>Preprocessor::process\<close>: the name and the trimmed
  replacement text of a \<^verbatim>\<open>#define\<close> line.\<close>

definition parse_define :: "string \<Rightarrow> string \<times> string" where
  "parse_define line =
     (let (directive, rest1) = extract_word line;
          (key, rest2) = extract_word rest1;
          v = trim rest2
      in (key, v))"

text \<open>The inner loop
  \<^verbatim>\<open>while ((pos = line.find(entry.first, pos)) != npos) { line.replace(...); pos += entry.second.length(); }\<close>.
  It need not end, so it is a partial function: \<open>None\<close> is the loop that never returns.\<close>

partial_function (option) replace_loop :: "string \<Rightarrow> string \<Rightarrow> string \<Rightarrow> nat \<Rightarrow> string option"
  where
  "replace_loop key v line pos =
     (case find_from line key pos of
        None \<Rightarrow> Some line
      | Some p \<Rightarrow> replace_loop key v (replace line p (length key) v) (p + length v))"

declare replace_loop.simps [code]

text \<open>\<^verbatim>\<open>for (const auto &entry : preprocessorMap)\<close>, each entry from position 0.\<close>

fun expand_line :: "macro_table \<Rightarrow> string \<Rightarrow> string option" where
  "expand_line [] line = Some line"
| "expand_line ((key, v) # m) line =
     (case replace_loop key v line 0 of
        None \<Rightarrow> None
      | Some line' \<Rightarrow> expand_line m line')"

text \<open>The test \<^verbatim>\<open>line.find("#define") == 0\<close> for a directive line.\<close>

definition is_directive :: "string \<Rightarrow> bool" where
  "is_directive line = (find_from line ''#define'' 0 = Some 0)"

text \<open>The outer loop of \<^verbatim>\<open>Preprocessor::process\<close> over the lines read, with the macro
  table and the text written to \<^verbatim>\<open>processedCode\<close> so far.\<close>

fun process_lines :: "macro_table \<Rightarrow> string list \<Rightarrow> string \<Rightarrow> string option" where
  "process_lines m [] processedCode = Some processedCode"
| "process_lines m (line # ls) processedCode =
     (if is_directive line then
        (let (key, v) = parse_define line
         in process_lines (map_assign m key v) ls processedCode)
      else
        (case expand_line m line of
           None \<Rightarrow> None
         | Some line' \<Rightarrow> process_lines m ls (processedCode @ line' @ [newline])))"

definition process :: "string \<Rightarrow> string option" where
  "process s = process_lines [] (getlines s) []"

subsection \<open>A macro with the empty name\<close>

lemma find_from_empty: "pos \<le> length line \<Longrightarrow> find_from line [] pos = Some pos"
  by (cases "pos = length line") (simp_all add: find_from_def upt_conv_Cons)

lemma replace_loop_empty_name_aux:
  assumes "replace_loop key v line pos = Some y"
  shows "\<not> (key = [] \<and> v = [] \<and> pos \<le> length line)"
proof (rule replace_loop.raw_induct
    [where P = "\<lambda>key v line pos y. \<not> (key = [] \<and> v = [] \<and> pos \<le> length line)", OF _ assms])
  fix loop :: "string \<Rightarrow> string \<Rightarrow> string \<Rightarrow> nat \<Rightarrow> string option"
    and key v line :: string and pos :: nat and y :: string
  assume IH: "\<And>k w l p z. loop k w l p = Some z \<Longrightarrow> \<not> (k = [] \<and> w = [] \<and> p \<le> length l)"
    and step: "(case find_from line key pos of None \<Rightarrow> Some line
       | Some p \<Rightarrow> loop key v (replace line p (length key) v) (p + length v)) = Some y"
  show "\<not> (key = [] \<and> v = [] \<and> pos \<le> length line)"
  proof
    assume a: "key = [] \<and> v = [] \<and> pos \<le> length line"
    then have "find_from line key pos = Some pos" by (simp add: find_from_empty)
    with step a have "loop key v line pos = Some y"
      by (simp add: replace_def)
    then have "\<not> (key = [] \<and> v = [] \<and> pos \<le> length line)" by (rule IH)
    with a show False by simp
  qed
qed

lemma replace_loop_empty_name:
  assumes "pos \<le> length line"
  shows "replace_loop [] [] line pos = None"
proof (cases "replace_loop [] [] line pos")
  case None
  then show ?thesis .
next
  case (Some y)
  from replace_loop_empty_name_aux [OF this] assms show ?thesis by simp
qed

section \<open>Parser\<close>

text \<open>\<^verbatim>\<open>struct FunctionSignature { std::string name; std::vector<std::string> argumentTypes; int line; }\<close>\<close>

record FunctionSignature =
  sig_name :: string
  argumentTypes :: "string list"
  sig_line :: int

record Parser =
  tokens :: "Token list"
  position :: nat
  indentLevel :: int
  formattedCode :: string
  functionTable :: "string \<rightharpoonup> FunctionSignature"

definition new_Parser :: "Token list \<Rightarrow> Parser" where
  "new_Parser ts = \<lparr>tokens = ts, position = 0, indentLevel = 0, formattedCode = [],
     functionTable = Map.empty\<rparr>"

definition eof_token :: Token where
  "eof_token = \<lparr>tok_type = END_OF_FILE, tok_value = [], tok_line = - 1\<rparr>"

definition ppeek :: "Parser \<Rightarrow> Token" where
  "ppeek P = (if position P < length (tokens P) then tokens P ! position P else eof_token)"

definition padvance :: "Parser \<Rightarrow> Token \<times> Parser" where
  "padvance P =
     (if position P < length (tokens P)
      then (tokens P ! position P, P\<lparr>position := position P + 1\<rparr>)
      else (eof_token, P))"

text \<open>\<^verbatim>\<open>writeIndentedLine\<close> first writes four spaces \<^verbatim>\<open>indentLevel\<close> times.\<close>

definition indentation :: "Parser \<Rightarrow> string" where
  "indentation P = concat (replicate (nat (indentLevel P)) ''    '')"

definition writeIndentedLine :: "string \<Rightarrow> Parser \<Rightarrow> Parser" where
  "writeIndentedLine line P =
     P\<lparr>formattedCode := formattedCode P @ indentation P @ line @ [newline]\<rparr>"

text \<open>\<^verbatim>\<open>std::to_string\<close> on a \<^verbatim>\<open>size_t\<close> and on an \<^verbatim>\<open>int\<close>.\<close>

definition digit_char :: "nat \<Rightarrow> char" where
  "digit_char d = char_of (48 + d)"

fun to_string_nat :: "nat \<Rightarrow> string" where
  "to_string_nat n =
     (if n < 10 then [digit_char n] else to_string_nat (n div 10) @ [digit_char (n mod 10)])"

declare to_string_nat.simps [simp del]

definition to_string :: "int \<Rightarrow> string" where
  "to_string i = (if i < 0 then CHR ''-'' # to_string_nat (nat (- i)) else to_string_nat (nat i))"

definition is_argument :: "Token \<Rightarrow> bool" where
  "is_argument t =
     (tok_type t = LITERAL \<or> tok_type t = IDENTIFIER \<or> tok_type t = STRING_LITERAL)"

text \<open>The argument loop, which \<^verbatim>\<open>detectFunctionCall\<close> and \<^verbatim>\<open>validateFunctionCall\<close>
  both contain word for word:
  \<^verbatim>\<open>while (peek().value != ")" && peek().type != END_OF_FILE) { ... }\<close>\<close>

function argument_loop :: "Parser \<Rightarrow> string list \<Rightarrow> string list \<times> Parser" where
  "argument_loop P arguments =
     (if tok_value (ppeek P) \<noteq> '')'' \<and> tok_type (ppeek P) \<noteq> END_OF_FILE then
        (let arguments1 = (if is_argument (ppeek P) then arguments @ [tok_value (ppeek P)]
                           else arguments);
             P1 = snd (padvance P);
             P2 = (if tok_value (ppeek P1) = '','' then snd (padvance P1) else P1)
         in argument_loop P2 arguments1)
      else (arguments, P))"
  by pat_completeness auto
termination
proof (relation "measure (\<lambda>(P, a). length (tokens P) - position P)")
  show "wf (measure (\<lambda>(P, a). length (tokens P) - position P))" by simp
next
  fix P :: Parser and arguments arguments1 :: "string list" and P1 P2
  assume a: "tok_value (ppeek P) \<noteq> '')'' \<and> tok_type (ppeek P) \<noteq> END_OF_FILE"
    and p1: "P1 = snd (padvance P)"
    and p2: "P2 = (if tok_value (ppeek P1) = '','' then snd (padvance P1) else P1)"
  from a have "position P < length (tokens P)"
    by (auto simp: ppeek_def eof_token_def split: if_splits)
  with p1 p2 show "((P2, arguments1), (P, arguments)) \<in> measure (\<lambda>(P, a). length (tokens P) - position P)"
    by (auto simp: padvance_def)
qed

declare argument_loop.simps [simp del]

definition detectFunctionCall :: "Parser \<Rightarrow> Parser" where
  "detectFunctionCall P =
     (let functionName = fst (padvance P);
          P1 = snd (padvance P)
      in if tok_value (ppeek P1) = ''('' then
           (let P2 = snd (padvance P1);
                arguments = fst (argument_loop P2 []);
                P3 = snd (argument_loop P2 []);
                P4 = (if tok_value (ppeek P3) = '')'' then snd (padvance P3) else P3)
            in if functionTable P4 (tok_value functionName) = None
               then P4\<lparr>functionTable := (functionTable P4)(tok_value functionName \<mapsto>
                      \<lparr>sig_name = tok_value functionName, argumentTypes = arguments,
                       sig_line = tok_line functionName\<rparr>)\<rparr>
               else P4)
         else P1)"

definition missing_paren_message :: string where
  "missing_paren_message = ''-- Error: Missing closing parenthesis for function call.''"

definition arity_message :: "string \<Rightarrow> int \<Rightarrow> nat \<Rightarrow> nat \<Rightarrow> string" where
  "arity_message name ln expected provided =
     ''-- Error: Function '' @ [CHR 0x27] @ name @ [CHR 0x27] @ '' at line '' @ to_string ln
       @ '' expects '' @ to_string_nat expected @ '' arguments, but ''
       @ to_string_nat provided @ '' were provided.''"

definition unknown_message :: "string \<Rightarrow> int \<Rightarrow> string" where
  "unknown_message name ln =
     ''-- Error: Unknown function '' @ [CHR 0x27] @ name @ [CHR 0x27] @ '' at line ''
       @ to_string ln @ ''.''"

definition validateFunctionCall :: "Parser \<Rightarrow> Parser" where
  "validateFunctionCall P =
     (let functionName = fst (padvance P);
          P1 = writeIndentedLine (tok_value functionName @ '' ('') (snd (padvance P));
          P5 = (if tok_value (ppeek P1) = ''('' then
                  (let P2 = snd (padvance P1);
                       arguments = fst (argument_loop P2 []);
                       P3 = snd (argument_loop P2 []);
                       P4 = (if tok_value (ppeek P3) = '')'' then snd (padvance P3)
                             else writeIndentedLine missing_paren_message P3)
                   in case functionTable P4 (tok_value functionName) of
                        Some signature \<Rightarrow>
                          if length (argumentTypes signature) \<noteq> length arguments
                          then writeIndentedLine
                                 (arity_message (tok_value functionName) (sig_line signature)
                                    (length (argumentTypes signature)) (length arguments)) P4
                          else P4
                      | None \<Rightarrow>
                          writeIndentedLine
                            (unknown_message (tok_value functionName) (tok_line functionName)) P4)
                else P1)
      in writeIndentedLine '');'' P5)"

definition parseStatement :: "bool \<Rightarrow> Parser \<Rightarrow> Parser" where
  "parseStatement isFirstPass P =
     (let token = ppeek P
      in if tok_type token = IDENTIFIER \<and> tok_value (ppeek P) \<noteq> ''('' then
           (if isFirstPass then detectFunctionCall P else validateFunctionCall P)
         else if tok_type token = KEYWORD then
           writeIndentedLine (tok_value token) (snd (padvance P))
         else
           writeIndentedLine (tok_value token @ '';'') (snd (padvance P)))"


subsection \<open>What a statement leaves alone, and that it moves forward\<close>

lemma ppeek_not_eof: "tok_type (ppeek P) \<noteq> END_OF_FILE \<Longrightarrow> position P < length (tokens P)"
  by (auto simp: ppeek_def eof_token_def split: if_splits)

lemma padvance_frame [simp]:
  "tokens (snd (padvance P)) = tokens P"
  "formattedCode (snd (padvance P)) = formattedCode P"
  "functionTable (snd (padvance P)) = functionTable P"
  "indentLevel (snd (padvance P)) = indentLevel P"
  by (simp_all add: padvance_def)

lemma padvance_position:
  "position (snd (padvance P)) = (if position P < length (tokens P) then Suc (position P) else position P)"
  by (simp add: padvance_def)

lemma padvance_fst: "fst (padvance P) = ppeek P"
  by (simp add: padvance_def ppeek_def)

lemma writeIndentedLine_frame [simp]:
  "tokens (writeIndentedLine l P) = tokens P"
  "position (writeIndentedLine l P) = position P"
  "functionTable (writeIndentedLine l P) = functionTable P"
  "indentLevel (writeIndentedLine l P) = indentLevel P"
  by (simp_all add: writeIndentedLine_def)

lemma ppeek_writeIndentedLine [simp]: "ppeek (writeIndentedLine l P) = ppeek P"
  by (simp add: ppeek_def)

lemma formattedCode_writeIndentedLine:
  "formattedCode (writeIndentedLine l X) = formattedCode X @ indentation X @ l @ [newline]"
  by (simp add: writeIndentedLine_def)

lemma indentation_cong: "indentLevel X = indentLevel Y \<Longrightarrow> indentation X = indentation Y"
  by (simp add: indentation_def)

lemma ppeek_cursor: "tokens Q = tokens P \<Longrightarrow> position Q = position P \<Longrightarrow> ppeek Q = ppeek P"
  by (simp add: ppeek_def)

lemma argument_loop_frame:
  "tokens (snd (argument_loop P a)) = tokens P
   \<and> position P \<le> position (snd (argument_loop P a))
   \<and> formattedCode (snd (argument_loop P a)) = formattedCode P
   \<and> functionTable (snd (argument_loop P a)) = functionTable P
   \<and> indentLevel (snd (argument_loop P a)) = indentLevel P"
proof (induction P a rule: argument_loop.induct)
  case (1 P a)
  show ?case
  proof (cases "tok_value (ppeek P) \<noteq> '')'' \<and> tok_type (ppeek P) \<noteq> END_OF_FILE")
    case True
    define a1 where "a1 = (if is_argument (ppeek P) then a @ [tok_value (ppeek P)] else a)"
    define P1 where "P1 = snd (padvance P)"
    define P2 where "P2 = (if tok_value (ppeek P1) = '','' then snd (padvance P1) else P1)"
    have step: "argument_loop P a = argument_loop P2 a1"
      using True by (simp add: argument_loop.simps [of P a] a1_def P1_def P2_def Let_def)
    have ih: "tokens (snd (argument_loop P2 a1)) = tokens P2
      \<and> position P2 \<le> position (snd (argument_loop P2 a1))
      \<and> formattedCode (snd (argument_loop P2 a1)) = formattedCode P2
      \<and> functionTable (snd (argument_loop P2 a1)) = functionTable P2
      \<and> indentLevel (snd (argument_loop P2 a1)) = indentLevel P2"
      using "1" [OF True a1_def P1_def P2_def] .
    have "tokens P2 = tokens P" "position P \<le> position P2" "formattedCode P2 = formattedCode P"
      "functionTable P2 = functionTable P" "indentLevel P2 = indentLevel P"
      by (simp_all add: P2_def P1_def padvance_position)
    with ih step show ?thesis by simp
  next
    case False
    then show ?thesis by (auto simp: argument_loop.simps [of P a])
  qed
qed

lemma detectFunctionCall_frame:
  "tokens (detectFunctionCall P) = tokens P
   \<and> formattedCode (detectFunctionCall P) = formattedCode P
   \<and> indentLevel (detectFunctionCall P) = indentLevel P
   \<and> (position P < length (tokens P) \<longrightarrow> position P < position (detectFunctionCall P))"
proof -
  define P1 where "P1 = snd (padvance P)"
  define P2 where "P2 = snd (padvance P1)"
  define P3 where "P3 = snd (argument_loop P2 [])"
  from argument_loop_frame [of P2 "[]"]
  have f: "tokens P3 = tokens P2" "position P2 \<le> position P3"
    "formattedCode P3 = formattedCode P2" "indentLevel P3 = indentLevel P2"
    by (simp_all add: P3_def)
  have g: "position P < length (tokens P) \<longrightarrow> position P < position P1"
    "position P1 \<le> position P2" "tokens P2 = tokens P" "tokens P1 = tokens P"
    "formattedCode P2 = formattedCode P" "formattedCode P1 = formattedCode P"
    "indentLevel P2 = indentLevel P" "indentLevel P1 = indentLevel P"
    by (simp_all add: P1_def P2_def padvance_position)
  show ?thesis
    using f g
    by (auto simp: detectFunctionCall_def Let_def padvance_position P1_def [symmetric]
        P2_def [symmetric] P3_def [symmetric])
qed

lemma validateFunctionCall_frame:
  "tokens (validateFunctionCall P) = tokens P
   \<and> functionTable (validateFunctionCall P) = functionTable P
   \<and> indentLevel (validateFunctionCall P) = indentLevel P
   \<and> (position P < length (tokens P) \<longrightarrow> position P < position (validateFunctionCall P))"
proof -
  define P1 where "P1 = writeIndentedLine (tok_value (fst (padvance P)) @ '' ('') (snd (padvance P))"
  define P2 where "P2 = snd (padvance P1)"
  define P3 where "P3 = snd (argument_loop P2 [])"
  from argument_loop_frame [of P2 "[]"]
  have f: "tokens P3 = tokens P2" "position P2 \<le> position P3"
    "functionTable P3 = functionTable P2" "indentLevel P3 = indentLevel P2"
    by (simp_all add: P3_def)
  have g: "position P < length (tokens P) \<longrightarrow> position P < position P1"
    "position P1 \<le> position P2" "tokens P2 = tokens P" "functionTable P2 = functionTable P"
    "indentLevel P2 = indentLevel P" "tokens P1 = tokens P" "functionTable P1 = functionTable P"
    "indentLevel P1 = indentLevel P"
    by (simp_all add: P1_def P2_def padvance_position)
  show ?thesis
    using f g
    by (auto simp: validateFunctionCall_def Let_def padvance_position
        P1_def [symmetric] P2_def [symmetric] P3_def [symmetric] split: option.splits)
qed

lemma parseStatement_frame:
  "tokens (parseStatement b P) = tokens P
   \<and> indentLevel (parseStatement b P) = indentLevel P
   \<and> (position P < length (tokens P) \<longrightarrow> position P < position (parseStatement b P))"
  using detectFunctionCall_frame [of P] validateFunctionCall_frame [of P]
  by (auto simp: parseStatement_def Let_def padvance_position)

lemma argument_loop_cursor:
  "tokens Q = tokens P \<Longrightarrow> position Q = position P \<Longrightarrow>
   fst (argument_loop Q a) = fst (argument_loop P a)
   \<and> position (snd (argument_loop Q a)) = position (snd (argument_loop P a))"
proof (induction P a arbitrary: Q rule: argument_loop.induct)
  case (1 P a)
  have pk: "ppeek Q = ppeek P" using "1.prems" by (rule ppeek_cursor)
  show ?case
  proof (cases "tok_value (ppeek P) \<noteq> '')'' \<and> tok_type (ppeek P) \<noteq> END_OF_FILE")
    case True
    define a1 where "a1 = (if is_argument (ppeek P) then a @ [tok_value (ppeek P)] else a)"
    define P1 where "P1 = snd (padvance P)"
    define P2 where "P2 = (if tok_value (ppeek P1) = '','' then snd (padvance P1) else P1)"
    define Q1 where "Q1 = snd (padvance Q)"
    define Q2 where "Q2 = (if tok_value (ppeek Q1) = '','' then snd (padvance Q1) else Q1)"
    have c1: "tokens Q1 = tokens P1" "position Q1 = position P1"
      using "1.prems" by (simp_all add: Q1_def P1_def padvance_def)
    then have pk1: "ppeek Q1 = ppeek P1" by (rule ppeek_cursor)
    have c2: "tokens Q2 = tokens P2" "position Q2 = position P2"
      using c1 pk1 by (simp_all add: Q2_def P2_def padvance_def)
    have stepP: "argument_loop P a = argument_loop P2 a1"
      using True by (simp add: argument_loop.simps [of P a] a1_def P1_def P2_def Let_def)
    have stepQ: "argument_loop Q a = argument_loop Q2 a1"
      using True pk by (simp add: argument_loop.simps [of Q a] a1_def Q1_def Q2_def Let_def)
    from "1.IH" [OF True a1_def P1_def P2_def c2] stepP stepQ show ?thesis by simp
  next
    case False
    with pk "1.prems" show ?thesis
      by (auto simp: argument_loop.simps [of P a] argument_loop.simps [of Q a])
  qed
qed

text \<open>What \<^verbatim>\<open>validateFunctionCall\<close> writes at a call whose name is in the table.\<close>

lemma validateFunctionCall_known:
  assumes a: "tok_value (ppeek (snd (padvance P))) = ''('' \<and>
    functionTable P (tok_value (ppeek P)) = Some signature"
  shows "formattedCode (validateFunctionCall P) =
      formattedCode P
      @ indentation P @ tok_value (ppeek P) @ '' ('' @ [newline]
      @ (if tok_value (ppeek (snd (argument_loop (snd (padvance (snd (padvance P)))) []))) = '')''
         then []
         else indentation P @ ''-- Error: Missing closing parenthesis for function call.''
              @ [newline])
      @ (if length (argumentTypes signature)
            \<noteq> length (fst (argument_loop (snd (padvance (snd (padvance P)))) []))
         then indentation P @ ''-- Error: Function '' @ [CHR 0x27] @ tok_value (ppeek P)
              @ [CHR 0x27] @ '' at line '' @ to_string (sig_line signature) @ '' expects ''
              @ to_string_nat (length (argumentTypes signature)) @ '' arguments, but ''
              @ to_string_nat (length (fst (argument_loop (snd (padvance (snd (padvance P)))) [])))
              @ '' were provided.'' @ [newline]
         else [])
      @ indentation P @ '');'' @ [newline]"
proof -
  define P1 where "P1 = writeIndentedLine (tok_value (ppeek P) @ '' ('') (snd (padvance P))"
  define P2 where "P2 = snd (padvance (snd (padvance P)))"
  show ?thesis
  proof -
    let ?A = "argument_loop P2 []"
    let ?A' = "argument_loop (snd (padvance P1)) []"
    define P3 where "P3 = snd ?A'"
    define P4 where "P4 = (if tok_value (ppeek P3) = '')'' then snd (padvance P3)
                             else writeIndentedLine missing_paren_message P3)"
    have c: "tokens (snd (padvance P1)) = tokens P2" "position (snd (padvance P1)) = position P2"
      by (simp_all add: P1_def P2_def padvance_def)
    from argument_loop_cursor [OF c, of "[]"]
    have e: "fst ?A' = fst ?A" "position P3 = position (snd ?A)" by (simp_all add: P3_def)
    from argument_loop_frame [of "snd (padvance P1)" "[]"] argument_loop_frame [of P2 "[]"]
    have f: "tokens P3 = tokens (snd ?A)" "formattedCode P3 = formattedCode P1"
      "functionTable P3 = functionTable P" "indentLevel P3 = indentLevel P"
      using c by (simp_all add: P1_def P3_def)
    have pk: "ppeek P3 = ppeek (snd ?A)" using f(1) e(2) by (rule ppeek_cursor)
    have pk1: "tok_value (ppeek P1) = ''(''" using a by (simp add: P1_def)
    have fc1: "formattedCode P1 = formattedCode P @ indentation P @ tok_value (ppeek P) @ '' ('' @ [newline]"
      by (simp add: P1_def formattedCode_writeIndentedLine indentation_cong [of "snd (padvance P)" P])
    have t4: "functionTable P4 = functionTable P" "indentLevel P4 = indentLevel P"
      using f by (simp_all add: P4_def)
    have i3: "indentation P3 = indentation P" using f(4) by (rule indentation_cong)
    have i4: "indentation P4 = indentation P" using t4(2) by (rule indentation_cong)
    have fc4: "formattedCode P4 = formattedCode P1 @
        (if tok_value (ppeek (snd ?A)) = '')'' then []
         else indentation P @ missing_paren_message @ [newline])"
      using f(2) pk i3 by (simp add: P4_def formattedCode_writeIndentedLine)
    have v: "validateFunctionCall P = writeIndentedLine '');''
        (if length (argumentTypes signature) \<noteq> length (fst ?A)
         then writeIndentedLine (arity_message (tok_value (ppeek P)) (sig_line signature)
                (length (argumentTypes signature)) (length (fst ?A))) P4
         else P4)"
      apply (simp only: validateFunctionCall_def Let_def padvance_fst)
      apply (simp only: P1_def [symmetric])
      apply (simp only: P3_def [symmetric])
      apply (simp only: P4_def [symmetric] pk1 if_True t4 e a option.case)
      apply simp
      done
    show ?thesis
    proof (cases "length (argumentTypes signature) \<noteq> length (fst ?A)")
      case True
      let ?W = "writeIndentedLine (arity_message (tok_value (ppeek P)) (sig_line signature)
                (length (argumentTypes signature)) (length (fst ?A))) P4"
      have "indentation ?W = indentation P"
        using t4(2) by (simp add: indentation_cong [of ?W P])
      then have "formattedCode (validateFunctionCall P) = formattedCode P4 @ indentation P
          @ arity_message (tok_value (ppeek P)) (sig_line signature)
                (length (argumentTypes signature)) (length (fst ?A)) @ [newline]
          @ indentation P @ '');'' @ [newline]"
        using True i4 by (simp add: v formattedCode_writeIndentedLine)
      then show ?thesis
        using True by (simp add: fc4 fc1 P2_def missing_paren_message_def arity_message_def)
    next
      case False
      then have "formattedCode (validateFunctionCall P) = formattedCode P4
          @ indentation P @ '');'' @ [newline]"
        using i4 by (simp add: v formattedCode_writeIndentedLine)
      then show ?thesis
        using False by (simp add: fc4 fc1 P2_def missing_paren_message_def)
    qed
  qed
qed

subsection \<open>The two passes\<close>

text \<open>The loop \<^verbatim>\<open>while (peek().type != END_OF_FILE) parseStatement(isFirstPass);\<close> of
  \<^verbatim>\<open>firstPass\<close> and \<^verbatim>\<open>secondPass\<close>.\<close>

function pass_loop :: "bool \<Rightarrow> Parser \<Rightarrow> Parser" where
  "pass_loop isFirstPass P =
     (if tok_type (ppeek P) \<noteq> END_OF_FILE
      then pass_loop isFirstPass (parseStatement isFirstPass P)
      else P)"
  by pat_completeness auto
termination
proof (relation "measure (\<lambda>(b, P). length (tokens P) - position P)")
  show "wf (measure (\<lambda>(b, P). length (tokens P) - position P))" by simp
next
  fix isFirstPass and P :: Parser
  assume "tok_type (ppeek P) \<noteq> END_OF_FILE"
  then have "position P < length (tokens P)" by (rule ppeek_not_eof)
  with parseStatement_frame [of isFirstPass P]
  show "((isFirstPass, parseStatement isFirstPass P), (isFirstPass, P))
      \<in> measure (\<lambda>(b, P). length (tokens P) - position P)"
    by auto
qed

declare pass_loop.simps [simp del]

definition firstPass :: "Parser \<Rightarrow> Parser" where
  "firstPass P = pass_loop True P"

text \<open>\<^verbatim>\<open>secondPass\<close> resets the position, runs the loop and returns the text of
  \<^verbatim>\<open>formattedCode\<close>, which \<^verbatim>\<open>firstPass\<close> has written to as well.\<close>

definition secondPass :: "Parser \<Rightarrow> string" where
  "secondPass P = formattedCode (pass_loop False (P\<lparr>position := 0\<rparr>))"

text \<open>\<^verbatim>\<open>main\<close> between reading the source file and writing the formatted file: the text
  written for the text read, \<open>None\<close> when the preprocessor does not return.\<close>

definition main :: "string \<Rightarrow> string option" where
  "main sourceCode =
     (case process sourceCode of
        None \<Rightarrow> None
      | Some preprocessedCode \<Rightarrow>
          Some (secondPass (firstPass (new_Parser (tokenize preprocessedCode)))))"


section \<open>Argument collection\<close>

text \<open>The claim about argument collection in its own words: the tokens up to the first one
  that closes the argument list (the text \<^verbatim>\<open>)\<close>, or the end of the tokens), and of these
  the texts of the literals, identifiers and string literals.\<close>

definition closes_arguments :: "Token \<Rightarrow> bool" where
  "closes_arguments t = (tok_value t = '')'' \<or> tok_type t = END_OF_FILE)"

definition intervening_arguments :: "Token list \<Rightarrow> string list" where
  "intervening_arguments ts =
     map tok_value (filter is_argument (takeWhile (\<lambda>t. \<not> closes_arguments t) ts))"

lemma drop_position:
  "position P < length (tokens P) \<Longrightarrow>
   drop (position P) (tokens P) = ppeek P # drop (Suc (position P)) (tokens P)"
  by (simp add: ppeek_def Cons_nth_drop_Suc)

text \<open>The tokens that the loop looks at: after a token it has looked at, the loop passes
  over the next token unseen when the text of that token is a comma.\<close>

fun looked_at :: "bool \<Rightarrow> Token list \<Rightarrow> Token list" where
  "looked_at after_token [] = []"
| "looked_at after_token (t # ts) =
     (if after_token \<and> tok_value t = '','' then looked_at False ts
      else if closes_arguments t then []
      else t # looked_at True ts)"

lemma argument_loop_looked_at:
  "fst (argument_loop P a)
     = a @ map tok_value (filter is_argument (looked_at False (drop (position P) (tokens P))))
   \<and> ((\<forall>t\<in>set (drop (position P) (tokens P)). tok_type t = END_OF_FILE \<longrightarrow> tok_value t \<noteq> '','')
      \<longrightarrow> position (snd (argument_loop P a)) = position P
          + length (takeWhile (\<lambda>t. \<not> closes_arguments t) (drop (position P) (tokens P))))"
proof (induction P a rule: argument_loop.induct)
  case (1 P a)
  let ?H = "\<lambda>P. \<forall>t\<in>set (drop (position P) (tokens P)). tok_type t = END_OF_FILE \<longrightarrow> tok_value t \<noteq> '',''"
  show ?case
  proof (cases "tok_value (ppeek P) \<noteq> '')'' \<and> tok_type (ppeek P) \<noteq> END_OF_FILE")
    case True
    define a1 where "a1 = (if is_argument (ppeek P) then a @ [tok_value (ppeek P)] else a)"
    define P1 where "P1 = snd (padvance P)"
    define P2 where "P2 = (if tok_value (ppeek P1) = '','' then snd (padvance P1) else P1)"
    from True have inr: "position P < length (tokens P)" by (simp add: ppeek_not_eof)
    have d0: "drop (position P) (tokens P) = ppeek P # drop (Suc (position P)) (tokens P)"
      using inr by (rule drop_position)
    have p1: "tokens P1 = tokens P" "position P1 = Suc (position P)"
      using inr by (simp_all add: P1_def padvance_position)
    have nc: "\<not> closes_arguments (ppeek P)" using True by (simp add: closes_arguments_def)
    have step: "argument_loop P a = argument_loop P2 a1"
      using True by (simp add: argument_loop.simps [of P a] a1_def P1_def P2_def Let_def)
    note ih = "1.IH" [OF True a1_def P1_def P2_def]
    have rest: "looked_at True (drop (Suc (position P)) (tokens P))
          = looked_at False (drop (position P2) (tokens P2))
      \<and> (?H P \<longrightarrow> ?H P2 \<and> position P2
            + length (takeWhile (\<lambda>t. \<not> closes_arguments t) (drop (position P2) (tokens P2)))
          = Suc (position P)
            + length (takeWhile (\<lambda>t. \<not> closes_arguments t) (drop (Suc (position P)) (tokens P))))"
    proof (cases "tok_value (ppeek P1) = '',''")
      case False
      then have e: "P2 = P1" by (simp add: P2_def)
      have "looked_at True (drop (position P1) (tokens P1))
          = looked_at False (drop (position P1) (tokens P1))"
      proof (cases "position P1 < length (tokens P1)")
        case True
        with False show ?thesis by (simp add: drop_position)
      next
        case False
        then show ?thesis by simp
      qed
      then show ?thesis
        using d0 by (auto simp: e p1)
    next
      case comma: True
      then have inr1: "position P1 < length (tokens P1)"
        by (auto simp: ppeek_def eof_token_def split: if_splits)
      have d1: "drop (position P1) (tokens P1) = ppeek P1 # drop (Suc (position P1)) (tokens P1)"
        using inr1 by (rule drop_position)
      have p2: "tokens P2 = tokens P" "position P2 = Suc (Suc (position P))"
        using comma inr1 p1 by (simp_all add: P2_def padvance_position)
      have l: "looked_at True (drop (Suc (position P)) (tokens P))
          = looked_at False (drop (position P2) (tokens P2))"
        using d1 comma by (simp add: p1 p2)
      have "?H P \<longrightarrow> \<not> closes_arguments (ppeek P1)"
        using d0 d1 comma by (auto simp: p1 closes_arguments_def)
      then show ?thesis
        using l d0 d1 by (auto simp: p1 p2)
    qed
    let ?tw = "takeWhile (\<lambda>t. \<not> closes_arguments t)"
    from ih have v2: "fst (argument_loop P2 a1)
        = a1 @ map tok_value (filter is_argument (looked_at False (drop (position P2) (tokens P2))))"
      by blast
    from rest have l: "looked_at True (drop (Suc (position P)) (tokens P))
          = looked_at False (drop (position P2) (tokens P2))" by blast
    have la: "looked_at False (drop (position P) (tokens P))
        = ppeek P # looked_at True (drop (Suc (position P)) (tokens P))"
      using nc by (simp add: d0)
    have A: "fst (argument_loop P a)
        = a @ map tok_value (filter is_argument (looked_at False (drop (position P) (tokens P))))"
      unfolding step v2 la l [symmetric] by (simp add: a1_def)
    have B: "position (snd (argument_loop P a))
        = position P + length (?tw (drop (position P) (tokens P)))" if h: "?H P"
    proof -
      from rest h have h2: "?H P2"
        and e: "position P2 + length (?tw (drop (position P2) (tokens P2)))
          = Suc (position P) + length (?tw (drop (Suc (position P)) (tokens P)))"
        by blast+
      from ih h2 have "position (snd (argument_loop P2 a1))
          = position P2 + length (?tw (drop (position P2) (tokens P2)))" by blast
      moreover have "?tw (drop (position P) (tokens P))
          = ppeek P # ?tw (drop (Suc (position P)) (tokens P))"
        using nc by (simp add: d0)
      ultimately show ?thesis unfolding step using e by simp
    qed
    from A B show ?thesis by blast
  next
    case False
    have "looked_at False (drop (position P) (tokens P)) = []
      \<and> takeWhile (\<lambda>t. \<not> closes_arguments t) (drop (position P) (tokens P)) = []"
    proof (cases "position P < length (tokens P)")
      case True
      with False show ?thesis
        by (auto simp: drop_position closes_arguments_def)
    next
      case False
      then show ?thesis by simp
    qed
    with False show ?thesis
      by (auto simp: argument_loop.simps [of P a])
  qed
qed

lemma looked_at_intervening:
  assumes "\<forall>t\<in>set ts. tok_type t = END_OF_FILE \<longrightarrow> tok_value t \<noteq> '',''"
    and "\<forall>t\<in>set (takeWhile (\<lambda>t. \<not> closes_arguments t) ts). is_argument t \<longrightarrow> tok_value t \<noteq> '',''"
  shows "filter is_argument (looked_at b ts)
    = filter is_argument (takeWhile (\<lambda>t. \<not> closes_arguments t) ts)"
  using assms
proof (induction ts arbitrary: b)
  case Nil
  show ?case by simp
next
  case (Cons t ts)
  show ?case
  proof (cases "closes_arguments t")
    case True
    with Cons.prems(1) have "tok_value t \<noteq> '',''" by (auto simp: closes_arguments_def)
    with True show ?thesis by simp
  next
    case False
    with Cons.prems have p: "\<forall>t\<in>set ts. tok_type t = END_OF_FILE \<longrightarrow> tok_value t \<noteq> '',''"
      "\<forall>t\<in>set (takeWhile (\<lambda>t. \<not> closes_arguments t) ts). is_argument t \<longrightarrow> tok_value t \<noteq> '',''"
      "is_argument t \<longrightarrow> tok_value t \<noteq> '',''"
      by simp_all
    from Cons.IH [OF p(1,2)] False p(3) show ?thesis by simp
  qed
qed


section \<open>The statements of a pass\<close>

text \<open>The states in which the loop of a pass tests its condition, from the state \<open>P\<close> in
  which the loop is entered.\<close>

inductive pass_reaches :: "bool \<Rightarrow> Parser \<Rightarrow> Parser \<Rightarrow> bool"
  for isFirstPass :: bool and P :: Parser where
  start: "pass_reaches isFirstPass P P"
| step: "pass_reaches isFirstPass P Q \<Longrightarrow> tok_type (ppeek Q) \<noteq> END_OF_FILE \<Longrightarrow>
     pass_reaches isFirstPass P (parseStatement isFirstPass Q)"

code_pred pass_reaches .

text \<open>A statement that both passes take for a call: an identifier (whose text is not
  \<^verbatim>\<open>(\<close>) before a token with the text \<^verbatim>\<open>(\<close>.\<close>

definition call_statement :: "Parser \<Rightarrow> bool" where
  "call_statement P =
     (tok_type (ppeek P) = IDENTIFIER \<and> tok_value (ppeek P) \<noteq> ''(''
      \<and> tok_value (ppeek (snd (padvance P))) = ''('')"

text \<open>The signature that the call at the position of \<open>P\<close> gives: the name, the arguments
  collected after the parenthesis and the line of the name.\<close>

definition call_signature :: "Parser \<Rightarrow> FunctionSignature" where
  "call_signature P =
     \<lparr>sig_name = tok_value (ppeek P),
      argumentTypes = fst (argument_loop (snd (padvance (snd (padvance P)))) []),
      sig_line = tok_line (ppeek P)\<rparr>"


lemma pass_reaches_trans:
  "pass_reaches b Q R \<Longrightarrow> pass_reaches b P Q \<Longrightarrow> pass_reaches b P R"
  by (induction rule: pass_reaches.induct) (auto intro: pass_reaches.intros)

lemma pass_reaches_first:
  "tok_type (ppeek P) \<noteq> END_OF_FILE \<Longrightarrow> pass_reaches b (parseStatement b P) Q \<Longrightarrow>
   pass_reaches b P Q"
  by (rule pass_reaches_trans [of b "parseStatement b P" Q P])
     (auto intro: pass_reaches.intros)


lemma pass_loop_reached: "pass_reaches b P (pass_loop b P)"
proof (induction b P rule: pass_loop.induct)
  case (1 b P)
  show ?case
  proof (cases "tok_type (ppeek P) \<noteq> END_OF_FILE")
    case True
    with "1" have "pass_reaches b (parseStatement b P) (pass_loop b P)"
      by (simp add: pass_loop.simps [of b P])
    with True show ?thesis by (rule pass_reaches_first)
  next
    case False
    then show ?thesis by (simp add: pass_loop.simps [of b P] pass_reaches.start)
  qed
qed

lemma pass_loop_from_reached: "pass_reaches b P Q \<Longrightarrow> pass_loop b Q = pass_loop b P"
proof (induction rule: pass_reaches.induct)
  case start
  show ?case by simp
next
  case (step Q)
  then show ?case by (simp add: pass_loop.simps [of b Q])
qed

lemma pass_reaches_tokens: "pass_reaches b P Q \<Longrightarrow> tokens Q = tokens P \<and> position P \<le> position Q"
proof (induction rule: pass_reaches.induct)
  case start
  show ?case by simp
next
  case (step Q)
  with parseStatement_frame [of b Q] ppeek_not_eof [of Q] show ?case by auto
qed


lemma detectFunctionCall_table:
  "functionTable (detectFunctionCall P) n =
     (if tok_value (ppeek (snd (padvance P))) = ''('' \<and> functionTable P n = None
         \<and> n = tok_value (ppeek P)
      then Some (call_signature P) else functionTable P n)"
proof -
  define P1 where "P1 = snd (padvance P)"
  define P2 where "P2 = snd (padvance P1)"
  define P3 where "P3 = snd (argument_loop P2 [])"
  define P4 where "P4 = (if tok_value (ppeek P3) = '')'' then snd (padvance P3) else P3)"
  from argument_loop_frame [of P2 "[]"]
  have "functionTable P3 = functionTable P" by (simp add: P3_def P2_def P1_def)
  then have t4: "functionTable P4 = functionTable P" by (simp add: P4_def)
  have d: "detectFunctionCall P =
     (if tok_value (ppeek P1) = ''('' then
        if functionTable P4 (tok_value (ppeek P)) = None
        then P4\<lparr>functionTable := (functionTable P4)(tok_value (ppeek P) \<mapsto>
               \<lparr>sig_name = tok_value (ppeek P), argumentTypes = fst (argument_loop P2 []),
                sig_line = tok_line (ppeek P)\<rparr>)\<rparr>
        else P4
      else P1)"
    by (simp add: detectFunctionCall_def Let_def padvance_fst P1_def P2_def P3_def P4_def)
  have t1: "functionTable P1 = functionTable P" by (simp add: P1_def)
  show ?thesis
    unfolding d using t4 t1
    by (auto simp: call_signature_def P1_def P2_def)
qed

lemma parseStatement_first_table:
  "functionTable (parseStatement True P) n =
     (if call_statement P \<and> functionTable P n = None \<and> n = tok_value (ppeek P)
      then Some (call_signature P) else functionTable P n)"
  by (auto simp: parseStatement_def Let_def detectFunctionCall_table call_statement_def)

lemma parseStatement_second_table:
  "functionTable (parseStatement False P) = functionTable P"
  using validateFunctionCall_frame [of P]
  by (simp add: parseStatement_def Let_def)

lemma pass_reaches_first_table:
  "pass_reaches True P Q \<Longrightarrow> functionTable P n = Some s \<Longrightarrow> functionTable Q n = Some s"
  by (induction rule: pass_reaches.induct) (simp_all add: parseStatement_first_table)

lemma pass_reaches_second_table:
  "pass_reaches False P Q \<Longrightarrow> functionTable Q = functionTable P"
  by (induction rule: pass_reaches.induct) (simp_all add: parseStatement_second_table)

lemma pass_loop_first_table:
  "functionTable P n = Some s \<Longrightarrow> functionTable (pass_loop True P) n = Some s"
  using pass_loop_reached [of True P] by (rule pass_reaches_first_table)

text \<open>The position after a statement depends on the tokens and the position only, and
  is the same in both passes.\<close>

lemma call_position:
  assumes "tokens Q = tokens P" "position Q = position P"
  shows "position (validateFunctionCall Q) = position (detectFunctionCall P)"
proof -
  define P1 where "P1 = snd (padvance P)"
  define P2 where "P2 = snd (padvance P1)"
  define P3 where "P3 = snd (argument_loop P2 [])"
  define Q1 where "Q1 = writeIndentedLine (tok_value (ppeek Q) @ '' ('') (snd (padvance Q))"
  define Q2 where "Q2 = snd (padvance Q1)"
  define Q3 where "Q3 = snd (argument_loop Q2 [])"
  have c1: "tokens Q1 = tokens P1" "position Q1 = position P1"
    using assms by (simp_all add: Q1_def P1_def padvance_def)
  then have k1: "ppeek Q1 = ppeek P1" by (rule ppeek_cursor)
  have c2: "tokens Q2 = tokens P2" "position Q2 = position P2"
    using c1 by (simp_all add: Q2_def P2_def padvance_def)
  from argument_loop_cursor [OF c2, of "[]"] argument_loop_frame [of Q2 "[]"]
    argument_loop_frame [of P2 "[]"]
  have c3: "tokens Q3 = tokens P3" "position Q3 = position P3"
    using c2 by (simp_all add: Q3_def P3_def)
  then have k3: "ppeek Q3 = ppeek P3" by (rule ppeek_cursor)
  have c4: "position (snd (padvance Q3)) = position (snd (padvance P3))"
    using c3 by (simp add: padvance_def)
  have pd: "position (detectFunctionCall P) =
      (if tok_value (ppeek P1) = ''('' then
         if tok_value (ppeek P3) = '')'' then position (snd (padvance P3)) else position P3
       else position P1)"
    by (simp add: detectFunctionCall_def Let_def P1_def P2_def P3_def)
  have pv: "position (validateFunctionCall Q) =
      (if tok_value (ppeek Q1) = ''('' then
         if tok_value (ppeek Q3) = '')'' then position (snd (padvance Q3)) else position Q3
       else position Q1)"
    by (simp add: validateFunctionCall_def Let_def padvance_fst Q1_def Q2_def Q3_def
        split: option.splits)
  show ?thesis
    unfolding pd pv using k1 k3 c1 c3 c4 by simp
qed

lemma parseStatement_position:
  assumes "tokens Q = tokens P" "position Q = position P"
  shows "position (parseStatement b' Q) = position (parseStatement b P)"
proof -
  have k: "ppeek Q = ppeek P" using assms by (rule ppeek_cursor)
  have a: "position (snd (padvance Q)) = position (snd (padvance P))"
    using assms by (simp add: padvance_def)
  have vd: "position (validateFunctionCall Q) = position (detectFunctionCall P)"
    using assms by (rule call_position)
  have dd: "position (detectFunctionCall Q) = position (detectFunctionCall P)"
    using call_position [OF assms] call_position [of Q Q] by simp
  have vv: "position (validateFunctionCall Q) = position (validateFunctionCall P)"
    using call_position [OF assms] call_position [of P P] by simp
  have dv: "position (detectFunctionCall Q) = position (validateFunctionCall P)"
    using dd call_position [of P P] by simp
  show ?thesis
    using k a vd dd vv dv by (simp add: parseStatement_def Let_def)
qed

lemma second_pass_follows_first:
  assumes "pass_reaches False P2 Q" "tokens P2 = tokens P1" "position P2 = position P1"
  shows "\<exists>Q1. pass_reaches True P1 Q1 \<and> tokens Q1 = tokens Q \<and> position Q1 = position Q"
  using assms
proof (induction rule: pass_reaches.induct)
  case start
  then show ?case by (auto intro: pass_reaches.start)
next
  case (step Q)
  then obtain Q1 where q1: "pass_reaches True P1 Q1" "tokens Q1 = tokens Q"
    "position Q1 = position Q" by blast
  have k: "ppeek Q1 = ppeek Q" using q1(2,3) by (rule ppeek_cursor)
  with step.hyps(2) q1(1) have r: "pass_reaches True P1 (parseStatement True Q1)"
    by (auto intro: pass_reaches.step)
  have "tokens (parseStatement True Q1) = tokens (parseStatement False Q)"
    using parseStatement_frame [of True Q1] parseStatement_frame [of False Q] q1(2) by simp
  moreover have "position (parseStatement True Q1) = position (parseStatement False Q)"
    using q1(2,3) by (rule parseStatement_position)
  ultimately show ?case using r by blast
qed

lemma call_statement_cursor:
  "tokens Q = tokens P \<Longrightarrow> position Q = position P \<Longrightarrow> call_statement Q = call_statement P"
  by (simp add: call_statement_def ppeek_def padvance_def)

lemma first_pass_registers:
  assumes "pass_reaches True P Q" "call_statement Q"
  shows "functionTable (pass_loop True P) (tok_value (ppeek Q)) \<noteq> None"
proof -
  from assms(2) have ne: "tok_type (ppeek Q) \<noteq> END_OF_FILE" by (simp add: call_statement_def)
  have "functionTable (parseStatement True Q) (tok_value (ppeek Q)) \<noteq> None"
    using assms(2) by (simp add: parseStatement_first_table)
  then obtain s where "functionTable (parseStatement True Q) (tok_value (ppeek Q)) = Some s"
    by auto
  then have "functionTable (pass_loop True (parseStatement True Q)) (tok_value (ppeek Q)) = Some s"
    by (rule pass_loop_first_table)
  with ne have "functionTable (pass_loop True Q) (tok_value (ppeek Q)) = Some s"
    by (simp add: pass_loop.simps [of True Q])
  with pass_loop_from_reached [OF assms(1)] show ?thesis by simp
qed






section \<open>What the tokens keep of the input\<close>

text \<open>The unread part of the input, and the line that the lexer has reached when it
  has read a text through \<^verbatim>\<open>advance\<close>, starting on a given line.\<close>

definition rest :: "Lexer \<Rightarrow> string" where
  "rest L = drop (lex_position L) (input L)"

definition line_step :: "int \<Rightarrow> char \<Rightarrow> int" where
  "line_step ln c = (if c = newline then int32 (ln + 1) else ln)"

definition line_from :: "int \<Rightarrow> string \<Rightarrow> int" where
  "line_from ln s = foldl line_step ln s"

text \<open>The final line reached: the line counter after the whole input, from line 1.\<close>

definition final_line :: "string \<Rightarrow> int" where
  "final_line s = line_from 1 s"

text \<open>What the token texts keep of an input: outside a string literal the letters,
  digits and punctuation characters other than the double quote, which opens a string
  literal; inside a string literal every character up to the closing double quote, which
  is dropped like the opening one. A NUL byte ends a string literal as well and is
  dropped.\<close>

fun kept :: "bool \<Rightarrow> string \<Rightarrow> string" where
  "kept in_string [] = []"
| "kept False (c # cs) =
     (if c = dquote then kept True cs
      else if isalnum c \<or> ispunct c then c # kept False cs
      else kept False cs)"
| "kept True (c # cs) =
     (if c = dquote then kept False cs
      else if c = NUL then kept False cs
      else c # kept True cs)"

lemma line_from_count:
  "- 2147483648 \<le> ln \<Longrightarrow> ln + int (length (filter (\<lambda>c. c = newline) s)) < 2147483648 \<Longrightarrow>
   line_from ln s = ln + int (length (filter (\<lambda>c. c = newline) s))"
proof (induction s arbitrary: ln)
  case Nil
  show ?case by (simp add: line_from_def)
next
  case (Cons c s)
  show ?case
  proof (cases "c = newline")
    case True
    with Cons.prems have b: "- 2147483648 \<le> ln + 1" "ln + 1 < 2147483648"
      "ln + 1 + int (length (filter (\<lambda>c. c = newline) s)) < 2147483648"
      by simp_all
    then have w: "int32 (ln + 1) = ln + 1" by (simp add: int32_def)
    from Cons.IH [OF b(1,3)] True w show ?thesis
      by (simp add: line_from_def line_step_def)
  next
    case False
    with Cons.IH [of ln] Cons.prems show ?thesis
      by (simp add: line_from_def line_step_def)
  qed
qed

lemma peek_rest: "peek L = (case rest L of [] \<Rightarrow> NUL | c # cs \<Rightarrow> c)"
  by (simp add: peek_def rest_def drop_Cons' hd_drop_conv_nth [symmetric] split: list.splits)

lemma rest_advance: "rest (snd (advance L)) = tl (rest L)"
  by (simp add: rest_def advance_def Let_def drop_Suc tl_drop)

lemma line_advance:
  "lex_line (snd (advance L)) = (if peek L = newline then int32 (lex_line L + 1) else lex_line L)"
  by (simp add: advance_def Let_def)

lemma advance_line_from:
  "line_from (lex_line (snd (advance L))) (rest (snd (advance L))) = line_from (lex_line L) (rest L)"
  by (cases "rest L")
     (simp_all add: rest_advance line_advance peek_rest line_from_def line_step_def)


lemma isspace_not_kept:
  "isspace c \<Longrightarrow> c \<noteq> dquote \<and> \<not> isalnum c \<and> \<not> ispunct c \<and> c \<noteq> NUL"
  by (auto simp: isspace_def isalnum_def isalpha_def isupper_def islower_def isdigit_def
      ispunct_def dquote_def NUL_def code_def)

lemma skipWhitespace_rest:
  "rest (skipWhitespace L) = dropWhile isspace (rest L)
   \<and> line_from (lex_line (skipWhitespace L)) (rest (skipWhitespace L))
       = line_from (lex_line L) (rest L)"
proof (induction L rule: skipWhitespace.induct)
  case (1 L)
  show ?case
  proof (cases "isspace (peek L)")
    case True
    then obtain c cs where r: "rest L = c # cs" "isspace c"
      by (cases "rest L") (auto simp: peek_rest)
    from "1" [OF True] True r advance_line_from [of L] show ?thesis
      by (auto simp: skipWhitespace.simps [of L] rest_advance)
  next
    case False
    then have "dropWhile isspace (rest L) = rest L"
      by (cases "rest L") (auto simp: peek_rest)
    with False show ?thesis by (simp add: skipWhitespace.simps [of L])
  qed
qed

definition isident :: "char \<Rightarrow> bool" where
  "isident c = (isalnum c \<or> c = underscore)"

lemma identifier_loop_rest:
  "fst (identifier_loop L v) = v @ takeWhile isident (rest L)
   \<and> rest (snd (identifier_loop L v)) = dropWhile isident (rest L)
   \<and> line_from (lex_line (snd (identifier_loop L v))) (rest (snd (identifier_loop L v)))
       = line_from (lex_line L) (rest L)"
proof (induction L v rule: identifier_loop.induct)
  case (1 L v)
  show ?case
  proof (cases "isalnum (peek L) \<or> peek L = underscore")
    case True
    then obtain c cs where r: "rest L = c # cs" "isident c" "peek L = c"
      by (cases "rest L") (auto simp: peek_rest isident_def)
    from "1" [OF True] True r advance_line_from [of L] show ?thesis
      by (auto simp: identifier_loop.simps [of L v] rest_advance)
  next
    case False
    then have "takeWhile isident (rest L) = []" "dropWhile isident (rest L) = rest L"
      by (cases "rest L"; auto simp: peek_rest isident_def)+
    with False show ?thesis by (simp add: identifier_loop.simps [of L v])
  qed
qed

lemma literal_loop_rest:
  "fst (literal_loop L v) = v @ takeWhile isdigit (rest L)
   \<and> rest (snd (literal_loop L v)) = dropWhile isdigit (rest L)
   \<and> line_from (lex_line (snd (literal_loop L v))) (rest (snd (literal_loop L v)))
       = line_from (lex_line L) (rest L)"
proof (induction L v rule: literal_loop.induct)
  case (1 L v)
  show ?case
  proof (cases "isdigit (peek L)")
    case True
    then obtain c cs where r: "rest L = c # cs" "isdigit c" "peek L = c"
      by (cases "rest L") (auto simp: peek_rest)
    from "1" [OF True] True r advance_line_from [of L] show ?thesis
      by (auto simp: literal_loop.simps [of L v] rest_advance)
  next
    case False
    then have "takeWhile isdigit (rest L) = []" "dropWhile isdigit (rest L) = rest L"
      by (cases "rest L"; auto simp: peek_rest)+
    with False show ?thesis by (simp add: literal_loop.simps [of L v])
  qed
qed

definition instring :: "char \<Rightarrow> bool" where
  "instring c = (c \<noteq> dquote \<and> c \<noteq> NUL)"

lemma string_loop_rest:
  "fst (string_loop L v) = v @ takeWhile instring (rest L)
   \<and> rest (snd (string_loop L v)) = dropWhile instring (rest L)
   \<and> line_from (lex_line (snd (string_loop L v))) (rest (snd (string_loop L v)))
       = line_from (lex_line L) (rest L)"
proof (induction L v rule: string_loop.induct)
  case (1 L v)
  show ?case
  proof (cases "peek L \<noteq> dquote \<and> peek L \<noteq> NUL")
    case True
    then obtain c cs where r: "rest L = c # cs" "instring c" "peek L = c"
      by (cases "rest L") (auto simp: peek_rest instring_def)
    from "1" [OF True] True r advance_line_from [of L] show ?thesis
      by (auto simp: string_loop.simps [of L v] rest_advance)
  next
    case False
    then have "takeWhile instring (rest L) = []" "dropWhile instring (rest L) = rest L"
      by (cases "rest L"; auto simp: peek_rest instring_def)+
    with False show ?thesis by (auto simp: string_loop.simps [of L v])
  qed
qed


lemma handleIdentifierOrKeyword_rest:
  "tok_value (fst (handleIdentifierOrKeyword L)) = takeWhile isident (rest L)
   \<and> tok_type (fst (handleIdentifierOrKeyword L)) \<noteq> END_OF_FILE
   \<and> rest (snd (handleIdentifierOrKeyword L)) = dropWhile isident (rest L)
   \<and> line_from (lex_line (snd (handleIdentifierOrKeyword L))) (rest (snd (handleIdentifierOrKeyword L)))
       = line_from (lex_line L) (rest L)"
  using identifier_loop_rest [of L "[]"]
  by (auto simp: handleIdentifierOrKeyword_def Let_def split: prod.splits)

lemma handleLiteral_rest:
  "tok_value (fst (handleLiteral L)) = takeWhile isdigit (rest L)
   \<and> tok_type (fst (handleLiteral L)) \<noteq> END_OF_FILE
   \<and> rest (snd (handleLiteral L)) = dropWhile isdigit (rest L)
   \<and> line_from (lex_line (snd (handleLiteral L))) (rest (snd (handleLiteral L)))
       = line_from (lex_line L) (rest L)"
  using literal_loop_rest [of L "[]"]
  by (auto simp: handleLiteral_def Let_def split: prod.splits)

lemma handleSymbol_rest:
  "tok_value (fst (handleSymbol L)) = [peek L]
   \<and> tok_type (fst (handleSymbol L)) \<noteq> END_OF_FILE
   \<and> rest (snd (handleSymbol L)) = tl (rest L)
   \<and> line_from (lex_line (snd (handleSymbol L))) (rest (snd (handleSymbol L)))
       = line_from (lex_line L) (rest L)"
  using advance_line_from [of L] rest_advance [of L]
  by (simp add: handleSymbol_def Let_def case_prod_beta)

definition after_string :: "string \<Rightarrow> string" where
  "after_string cs =
     (case dropWhile instring cs of [] \<Rightarrow> [] | d # ds \<Rightarrow> if d = dquote then ds else d # ds)"

lemma handleStringLiteral_rest:
  "tok_value (fst (handleStringLiteral L)) = takeWhile instring (tl (rest L))
   \<and> tok_type (fst (handleStringLiteral L)) \<noteq> END_OF_FILE
   \<and> rest (snd (handleStringLiteral L)) = after_string (tl (rest L))
   \<and> line_from (lex_line (snd (handleStringLiteral L))) (rest (snd (handleStringLiteral L)))
       = line_from (lex_line L) (rest L)"
proof -
  define L1 where "L1 = snd (advance L)"
  define L2 where "L2 = snd (string_loop L1 [])"
  define L3 where "L3 = (if peek L2 = dquote then snd (advance L2) else L2)"
  have r1: "rest L1 = tl (rest L)" by (simp add: L1_def rest_advance)
  have n1: "line_from (lex_line L1) (rest L1) = line_from (lex_line L) (rest L)"
    unfolding L1_def by (rule advance_line_from)
  from string_loop_rest [of L1 "[]"]
  have v: "fst (string_loop L1 []) = takeWhile instring (rest L1)"
    and r2: "rest L2 = dropWhile instring (rest L1)"
    and n2: "line_from (lex_line L2) (rest L2) = line_from (lex_line L1) (rest L1)"
    by (auto simp: L2_def)
  have r3: "rest L3 = after_string (rest L1)"
    using rest_advance [of L2]
    by (cases "rest L2") (auto simp: L3_def peek_rest r2 [symmetric] after_string_def)
  have n3: "line_from (lex_line L3) (rest L3) = line_from (lex_line L2) (rest L2)"
    using advance_line_from [of L2] by (simp add: L3_def)
  have h: "handleStringLiteral L
      = (\<lparr>tok_type = STRING_LITERAL, tok_value = fst (string_loop L1 []), tok_line = lex_line L3\<rparr>, L3)"
    by (simp add: handleStringLiteral_def Let_def L1_def L2_def L3_def split: prod.splits)
  show ?thesis
    unfolding h using v r1 r3 n1 n2 n3 by simp
qed

lemma kept_dropWhile_isspace: "kept False (dropWhile isspace xs) = kept False xs"
  by (induction xs) (auto dest: isspace_not_kept)

lemma isident_kept: "isident c \<Longrightarrow> c \<noteq> dquote \<and> (isalnum c \<or> ispunct c)"
  by (auto simp: isident_def isalnum_def isalpha_def isupper_def islower_def isdigit_def
      ispunct_def dquote_def underscore_def code_def)

lemma isdigit_kept: "isdigit c \<Longrightarrow> c \<noteq> dquote \<and> (isalnum c \<or> ispunct c)"
  by (auto simp: isalnum_def isdigit_def dquote_def code_def)

lemma kept_identifier: "kept False xs = takeWhile isident xs @ kept False (dropWhile isident xs)"
  by (induction xs) (auto dest: isident_kept)

lemma kept_literal: "kept False xs = takeWhile isdigit xs @ kept False (dropWhile isdigit xs)"
  by (induction xs) (auto dest: isdigit_kept)

lemma NUL_not_kept: "\<not> isalnum NUL \<and> \<not> ispunct NUL \<and> NUL \<noteq> dquote"
  by simp

lemma kept_string: "kept True cs = takeWhile instring cs @ kept False (after_string cs)"
proof (induction cs)
  case Nil
  show ?case by (simp add: after_string_def)
next
  case (Cons c cs)
  show ?case
  proof (cases "instring c")
    case True
    with Cons show ?thesis by (simp add: after_string_def instring_def)
  next
    case False
    then show ?thesis by (auto simp: after_string_def instring_def)
  qed
qed


lemma tokenize_loop_spec:
  "\<exists>ts. tokenize_loop L toks
        = toks @ ts @ [\<lparr>tok_type = END_OF_FILE, tok_value = [],
                        tok_line = line_from (lex_line L) (rest L)\<rparr>]
     \<and> filter (\<lambda>t. tok_type t = END_OF_FILE) ts = []
     \<and> concat (map tok_value ts) = kept False (rest L)"
proof (induction L toks rule: tokenize_loop.induct)
  case (1 L toks)
  show ?case
  proof (cases "lex_position L < length (input L)")
    case False
    then have "rest L = []" by (simp add: rest_def)
    with False show ?thesis
      by (simp add: tokenize_loop.simps [of L toks] line_from_def)
  next
    case True
    define L1 where "L1 = skipWhitespace L"
    define current where "current = peek L1"
    from skipWhitespace_rest [of L]
    have r1: "rest L1 = dropWhile isspace (rest L)"
      and n1: "line_from (lex_line L1) (rest L1) = line_from (lex_line L) (rest L)"
      by (auto simp: L1_def)
    have k1: "kept False (rest L1) = kept False (rest L)"
      by (simp add: r1 kept_dropWhile_isspace)
    have step: "\<exists>ts. tokenize_loop L2 (toks @ t)
          = (toks @ t) @ ts @ [\<lparr>tok_type = END_OF_FILE, tok_value = [],
                        tok_line = line_from (lex_line L2) (rest L2)\<rparr>]
        \<and> filter (\<lambda>t. tok_type t = END_OF_FILE) ts = []
        \<and> concat (map tok_value ts) = kept False (rest L2) \<Longrightarrow>
      tokenize_loop L toks = tokenize_loop L2 (toks @ t) \<Longrightarrow>
      filter (\<lambda>t. tok_type t = END_OF_FILE) t = [] \<Longrightarrow>
      line_from (lex_line L2) (rest L2) = line_from (lex_line L1) (rest L1) \<Longrightarrow>
      concat (map tok_value t) @ kept False (rest L2) = kept False (rest L1) \<Longrightarrow>
      ?thesis" for L2 t
    proof -
      assume a: "\<exists>ts. tokenize_loop L2 (toks @ t)
          = (toks @ t) @ ts @ [\<lparr>tok_type = END_OF_FILE, tok_value = [],
                        tok_line = line_from (lex_line L2) (rest L2)\<rparr>]
        \<and> filter (\<lambda>t. tok_type t = END_OF_FILE) ts = []
        \<and> concat (map tok_value ts) = kept False (rest L2)"
        and e: "tokenize_loop L toks = tokenize_loop L2 (toks @ t)"
        and f: "filter (\<lambda>t. tok_type t = END_OF_FILE) t = []"
        and n: "line_from (lex_line L2) (rest L2) = line_from (lex_line L1) (rest L1)"
        and c: "concat (map tok_value t) @ kept False (rest L2) = kept False (rest L1)"
      from a obtain ts where ts: "tokenize_loop L2 (toks @ t)
          = (toks @ t) @ ts @ [\<lparr>tok_type = END_OF_FILE, tok_value = [],
                        tok_line = line_from (lex_line L2) (rest L2)\<rparr>]"
        "filter (\<lambda>t. tok_type t = END_OF_FILE) ts = []"
        "concat (map tok_value ts) = kept False (rest L2)" by blast
      show ?thesis
      proof (intro exI [of _ "t @ ts"] conjI)
        show "tokenize_loop L toks = toks @ (t @ ts) @ [\<lparr>tok_type = END_OF_FILE, tok_value = [],
                        tok_line = line_from (lex_line L) (rest L)\<rparr>]"
          using e ts(1) n n1 by simp
        show "filter (\<lambda>t. tok_type t = END_OF_FILE) (t @ ts) = []" using f ts(2) by simp
        show "concat (map tok_value (t @ ts)) = kept False (rest L)"
          using ts(3) c k1 by simp
      qed
    qed
    consider (ident) "isalpha current \<or> current = underscore"
      | (digit) "\<not> (isalpha current \<or> current = underscore)" "isdigit current"
      | (quote) "\<not> (isalpha current \<or> current = underscore)" "\<not> isdigit current"
          "current = dquote"
      | (punct) "\<not> (isalpha current \<or> current = underscore)" "\<not> isdigit current"
          "current \<noteq> dquote" "ispunct current"
      | (other) "\<not> (isalpha current \<or> current = underscore)" "\<not> isdigit current"
          "current \<noteq> dquote" "\<not> ispunct current"
      by blast
    then show ?thesis
    proof cases
      case ident
      let ?H = "handleIdentifierOrKeyword L1"
      have e: "tokenize_loop L toks = tokenize_loop (snd ?H) (toks @ [fst ?H])"
        using True ident
        by (simp add: tokenize_loop.simps [of L toks] L1_def [symmetric] current_def [symmetric]
            Let_def)
      note h = handleIdentifierOrKeyword_rest [of L1]
      show ?thesis
      proof (rule step [OF _ e])
        show "\<exists>ts. tokenize_loop (snd ?H) (toks @ [fst ?H])
          = (toks @ [fst ?H]) @ ts @ [\<lparr>tok_type = END_OF_FILE, tok_value = [],
                        tok_line = line_from (lex_line (snd ?H)) (rest (snd ?H))\<rparr>]
          \<and> filter (\<lambda>t. tok_type t = END_OF_FILE) ts = []
          \<and> concat (map tok_value ts) = kept False (rest (snd ?H))"
          using "1.IH"(1) [OF True L1_def current_def ident] .
        show "filter (\<lambda>t. tok_type t = END_OF_FILE) [fst ?H] = []" using h by auto
        show "line_from (lex_line (snd ?H)) (rest (snd ?H)) = line_from (lex_line L1) (rest L1)"
          using h by auto
        show "concat (map tok_value [fst ?H]) @ kept False (rest (snd ?H)) = kept False (rest L1)"
          using h kept_identifier [of "rest L1"] by auto
      qed
    next
      case digit
      let ?H = "handleLiteral L1"
      have e: "tokenize_loop L toks = tokenize_loop (snd ?H) (toks @ [fst ?H])"
        using True digit
        by (simp add: tokenize_loop.simps [of L toks] L1_def [symmetric] current_def [symmetric]
            Let_def)
      note h = handleLiteral_rest [of L1]
      show ?thesis
      proof (rule step [OF _ e])
        show "\<exists>ts. tokenize_loop (snd ?H) (toks @ [fst ?H])
          = (toks @ [fst ?H]) @ ts @ [\<lparr>tok_type = END_OF_FILE, tok_value = [],
                        tok_line = line_from (lex_line (snd ?H)) (rest (snd ?H))\<rparr>]
          \<and> filter (\<lambda>t. tok_type t = END_OF_FILE) ts = []
          \<and> concat (map tok_value ts) = kept False (rest (snd ?H))"
          using "1.IH"(2) [OF True L1_def current_def digit] .
        show "filter (\<lambda>t. tok_type t = END_OF_FILE) [fst ?H] = []" using h by auto
        show "line_from (lex_line (snd ?H)) (rest (snd ?H)) = line_from (lex_line L1) (rest L1)"
          using h by auto
        show "concat (map tok_value [fst ?H]) @ kept False (rest (snd ?H)) = kept False (rest L1)"
          using h kept_literal [of "rest L1"] by auto
      qed
    next
      case quote
      let ?H = "handleStringLiteral L1"
      have e: "tokenize_loop L toks = tokenize_loop (snd ?H) (toks @ [fst ?H])"
        using True quote
        by (simp add: tokenize_loop.simps [of L toks] L1_def [symmetric] current_def [symmetric]
            Let_def)
      note h = handleStringLiteral_rest [of L1]
      from quote(3) obtain cs where r: "rest L1 = dquote # cs"
        by (cases "rest L1") (auto simp: current_def peek_rest)
      show ?thesis
      proof (rule step [OF _ e])
        show "\<exists>ts. tokenize_loop (snd ?H) (toks @ [fst ?H])
          = (toks @ [fst ?H]) @ ts @ [\<lparr>tok_type = END_OF_FILE, tok_value = [],
                        tok_line = line_from (lex_line (snd ?H)) (rest (snd ?H))\<rparr>]
          \<and> filter (\<lambda>t. tok_type t = END_OF_FILE) ts = []
          \<and> concat (map tok_value ts) = kept False (rest (snd ?H))"
          using "1.IH"(3) [OF True L1_def current_def quote] .
        show "filter (\<lambda>t. tok_type t = END_OF_FILE) [fst ?H] = []" using h by auto
        show "line_from (lex_line (snd ?H)) (rest (snd ?H)) = line_from (lex_line L1) (rest L1)"
          using h by auto
        show "concat (map tok_value [fst ?H]) @ kept False (rest (snd ?H)) = kept False (rest L1)"
          using h kept_string [of cs] by (auto simp: r)
      qed
    next
      case punct
      let ?H = "handleSymbol L1"
      have e: "tokenize_loop L toks = tokenize_loop (snd ?H) (toks @ [fst ?H])"
        using True punct
        by (simp add: tokenize_loop.simps [of L toks] L1_def [symmetric] current_def [symmetric]
            Let_def)
      note h = handleSymbol_rest [of L1]
      from punct(4) obtain cs where r: "rest L1 = current # cs"
        by (cases "rest L1") (auto simp: current_def peek_rest)
      show ?thesis
      proof (rule step [OF _ e])
        show "\<exists>ts. tokenize_loop (snd ?H) (toks @ [fst ?H])
          = (toks @ [fst ?H]) @ ts @ [\<lparr>tok_type = END_OF_FILE, tok_value = [],
                        tok_line = line_from (lex_line (snd ?H)) (rest (snd ?H))\<rparr>]
          \<and> filter (\<lambda>t. tok_type t = END_OF_FILE) ts = []
          \<and> concat (map tok_value ts) = kept False (rest (snd ?H))"
          using "1.IH"(4) [OF True L1_def current_def punct] .
        show "filter (\<lambda>t. tok_type t = END_OF_FILE) [fst ?H] = []" using h by auto
        show "line_from (lex_line (snd ?H)) (rest (snd ?H)) = line_from (lex_line L1) (rest L1)"
          using h by auto
        show "concat (map tok_value [fst ?H]) @ kept False (rest (snd ?H)) = kept False (rest L1)"
          using h punct(3,4) by (auto simp: r current_def [symmetric] peek_rest)
      qed
    next
      case other
      let ?L2 = "snd (advance L1)"
      have e: "tokenize_loop L toks = tokenize_loop ?L2 (toks @ [])"
        using True other
        by (simp add: tokenize_loop.simps [of L toks] L1_def [symmetric] current_def [symmetric]
            Let_def)
      have na: "\<not> isalnum current" using other(1,2) by (simp add: isalnum_def)
      have k: "kept False (tl (rest L1)) = kept False (rest L1)"
      proof (cases "rest L1")
        case Nil
        then show ?thesis by simp
      next
        case (Cons c cs)
        then have "c = current" by (simp add: current_def peek_rest)
        with Cons na other(3,4) show ?thesis by simp
      qed
      show ?thesis
      proof (rule step [OF _ e])
        show "\<exists>ts. tokenize_loop ?L2 (toks @ [])
          = (toks @ []) @ ts @ [\<lparr>tok_type = END_OF_FILE, tok_value = [],
                        tok_line = line_from (lex_line ?L2) (rest ?L2)\<rparr>]
          \<and> filter (\<lambda>t. tok_type t = END_OF_FILE) ts = []
          \<and> concat (map tok_value ts) = kept False (rest ?L2)"
          using "1.IH"(5) [OF True L1_def current_def other] by simp
        show "filter (\<lambda>t. tok_type t = END_OF_FILE) [] = []" by simp
        show "line_from (lex_line ?L2) (rest ?L2) = line_from (lex_line L1) (rest L1)"
          by (rule advance_line_from)
        show "concat (map tok_value []) @ kept False (rest ?L2) = kept False (rest L1)"
          using k by (simp add: rest_advance)
      qed
    qed
  qed
qed

lemma kept_no_quote:
  "dquote \<notin> set s \<Longrightarrow> kept False s = filter (\<lambda>c. isalnum c \<or> ispunct c) s"
  by (induction s) auto


section \<open>The lines of the expanded text\<close>

text \<open>A text without a newline, and a macro table whose replacement texts have none.\<close>

definition one_line :: "string \<Rightarrow> bool" where
  "one_line s = (newline \<notin> set s)"

definition join_lines :: "string list \<Rightarrow> string" where
  "join_lines ls = concat (map (\<lambda>l. l @ [newline]) ls)"

lemma getlines_one_line: "l \<in> set (getlines s) \<Longrightarrow> one_line l"
proof (induction s arbitrary: l rule: getlines.induct)
  case (1 s)
  show ?case
  proof (cases "s = []")
    case True
    with "1.prems" show ?thesis by (simp add: getlines.simps [of "[]"])
  next
    case False
    with "1.prems" have "l = takeWhile (\<lambda>c. c \<noteq> newline) s
        \<or> l \<in> set (getlines (drop 1 (dropWhile (\<lambda>c. c \<noteq> newline) s)))"
      by (simp add: getlines.simps [of s])
    then show ?thesis
    proof
      assume "l = takeWhile (\<lambda>c. c \<noteq> newline) s"
      then show ?thesis by (auto simp: one_line_def dest: set_takeWhileD)
    next
      assume "l \<in> set (getlines (drop 1 (dropWhile (\<lambda>c. c \<noteq> newline) s)))"
      with "1.IH" [OF False] show ?thesis .
    qed
  qed
qed

lemma getlines_join_lines: "\<forall>l\<in>set ls. one_line l \<Longrightarrow> getlines (join_lines ls) = ls"
proof (induction ls)
  case Nil
  show ?case by (simp add: join_lines_def getlines.simps [of "[]"])
next
  case (Cons l ls)
  then have ol: "newline \<notin> set l" by (simp add: one_line_def)
  have t: "takeWhile (\<lambda>c. c \<noteq> newline) (l @ newline # join_lines ls) = l"
    using ol by (auto simp: takeWhile_tail)
  have d: "dropWhile (\<lambda>c. c \<noteq> newline) (l @ newline # join_lines ls) = newline # join_lines ls"
    using ol by (auto simp: dropWhile_append3)
  have "join_lines (l # ls) = l @ newline # join_lines ls" by (simp add: join_lines_def)
  then have "getlines (join_lines (l # ls)) = l # getlines (join_lines ls)"
    using t d by (simp add: getlines.simps [of "l @ newline # join_lines ls"])
  with Cons show ?case by simp
qed

lemma replace_loop_one_line:
  assumes "replace_loop key v line pos = Some r"
  shows "one_line v \<longrightarrow> one_line line \<longrightarrow> one_line r"
proof (rule replace_loop.raw_induct
    [where P = "\<lambda>key v line pos r. one_line v \<longrightarrow> one_line line \<longrightarrow> one_line r", OF _ assms])
  fix loop :: "string \<Rightarrow> string \<Rightarrow> string \<Rightarrow> nat \<Rightarrow> string option"
    and key v line :: string and pos :: nat and r :: string
  assume IH: "\<And>k w l p z. loop k w l p = Some z \<Longrightarrow> one_line w \<longrightarrow> one_line l \<longrightarrow> one_line z"
    and step: "(case find_from line key pos of None \<Rightarrow> Some line
       | Some p \<Rightarrow> loop key v (replace line p (length key) v) (p + length v)) = Some r"
  show "one_line v \<longrightarrow> one_line line \<longrightarrow> one_line r"
  proof (intro impI)
    assume v: "one_line v" and l: "one_line line"
    show "one_line r"
    proof (cases "find_from line key pos")
      case None
      with step l show ?thesis by simp
    next
      case (Some p)
      with step have "loop key v (replace line p (length key) v) (p + length v) = Some r"
        by simp
      from IH [OF this] v have "one_line (replace line p (length key) v) \<longrightarrow> one_line r"
        by simp
      moreover have "one_line (replace line p (length key) v)"
        using v l by (auto simp: one_line_def replace_def dest: in_set_takeD in_set_dropD)
      ultimately show ?thesis by simp
    qed
  qed
qed

lemma expand_line_one_line:
  "expand_line m line = Some r \<Longrightarrow> \<forall>(k, v)\<in>set m. one_line v \<Longrightarrow> one_line line \<Longrightarrow> one_line r"
proof (induction m arbitrary: line)
  case Nil
  then show ?case by simp
next
  case (Cons e m)
  obtain k v where e: "e = (k, v)" by (cases e)
  from Cons.prems(1) e obtain line' where
    s: "replace_loop k v line 0 = Some line'" "expand_line m line' = Some r"
    by (auto split: option.splits)
  from replace_loop_one_line [OF s(1)] Cons.prems(2,3) e have "one_line line'" by simp
  with Cons.IH [OF s(2)] Cons.prems(2) show ?case by simp
qed

lemma map_assign_one_line:
  "\<forall>(k, v)\<in>set m. one_line v \<Longrightarrow> one_line w \<Longrightarrow> \<forall>(k, v)\<in>set (map_assign m key w). one_line v"
  using map_assign_subset [of m key w] by auto

lemma trim_subset: "set (trim s) \<subseteq> set s"
  by (auto simp: trim_def dest!: set_dropWhileD)

lemma parse_define_one_line: "one_line line \<Longrightarrow> one_line (snd (parse_define line))"
proof -
  assume a: "one_line line"
  have "set (snd (parse_define line)) \<subseteq> set line"
    using trim_subset
    by (auto simp: parse_define_def extract_word_def Let_def dest!: set_dropWhileD
        split: prod.splits)
  with a show ?thesis by (auto simp: one_line_def)
qed


lemma process_lines_lines:
  assumes "process_lines m ls acc = Some r" "\<forall>(k, v)\<in>set m. one_line v" "\<forall>l\<in>set ls. one_line l"
  shows "\<exists>out. r = acc @ join_lines out \<and> (\<forall>l\<in>set out. one_line l)
    \<and> length out = length (filter (\<lambda>l. \<not> is_directive l) ls)"
  using assms
proof (induction ls arbitrary: m acc)
  case Nil
  then have "r = acc @ join_lines []" by (simp add: join_lines_def)
  then show ?case by (intro exI [of _ "[]"]) simp
next
  case (Cons line ls)
  from Cons.prems(3) have ol: "one_line line" and rest: "\<forall>l\<in>set ls. one_line l" by simp_all
  show ?case
  proof (cases "is_directive line")
    case True
    obtain key v where kv: "parse_define line = (key, v)" by (cases "parse_define line")
    with parse_define_one_line [OF ol] have "one_line v" by simp
    with Cons.prems(2) have m': "\<forall>(k, v)\<in>set (map_assign m key v). one_line v"
      by (rule map_assign_one_line)
    from Cons.prems(1) True kv have "process_lines (map_assign m key v) ls acc = Some r"
      by simp
    from Cons.IH [OF this m' rest] True show ?thesis by simp
  next
    case False
    with Cons.prems(1) obtain line' where
      e: "expand_line m line = Some line'"
      and p: "process_lines m ls (acc @ line' @ [newline]) = Some r"
      by (auto split: option.splits)
    from expand_line_one_line [OF e Cons.prems(2) ol] have ol': "one_line line'" .
    from Cons.IH [OF p Cons.prems(2) rest] obtain out where
      o: "r = (acc @ line' @ [newline]) @ join_lines out" "\<forall>l\<in>set out. one_line l"
        "length out = length (filter (\<lambda>l. \<not> is_directive l) ls)" by blast
    show ?thesis
    proof (intro exI [of _ "line' # out"] conjI)
      show "r = acc @ join_lines (line' # out)" using o(1) by (simp add: join_lines_def)
      show "\<forall>l\<in>set (line' # out). one_line l" using o(2) ol' by simp
      show "length (line' # out) = length (filter (\<lambda>l. \<not> is_directive l) (line # ls))"
        using o(3) False by simp
    qed
  qed
qed

subsection \<open>The replacement loop ends for a name that is not empty\<close>

lemma find_from_Some:
  "find_from line key pos = Some p \<Longrightarrow> pos \<le> p \<and> p + length key \<le> length line"
proof -
  assume "find_from line key pos = Some p"
  then have "p \<in> set [pos ..< Suc (length line) - length key]"
    by (auto simp: find_from_def find_Some_iff)
  then show ?thesis by auto
qed

lemma replace_loop_ends:
  "key \<noteq> [] \<Longrightarrow> \<exists>r. replace_loop key v line pos = Some r"
proof (induction "length line - pos" arbitrary: line pos rule: less_induct)
  case less
  show ?case
  proof (cases "find_from line key pos")
    case None
    then show ?thesis by (simp add: replace_loop.simps [of key v line pos])
  next
    case (Some p)
    from find_from_Some [OF Some] have b: "pos \<le> p" "p + length key \<le> length line" by simp_all
    from less.prems have k: "1 \<le> length key" by (cases key) simp_all
    have len: "length (replace line p (length key) v)
        = p + length v + (length line - (p + length key))"
      using b by (simp add: replace_def)
    have "length (replace line p (length key) v) - (p + length v) < length line - pos"
      unfolding len using b k by arith
    from less.hyps [OF this less.prems]
    obtain r where "replace_loop key v (replace line p (length key) v) (p + length v) = Some r"
      by blast
    with Some show ?thesis by (simp add: replace_loop.simps [of key v line pos])
  qed
qed

lemma expand_line_ends:
  "\<forall>(k, v)\<in>set m. k \<noteq> [] \<Longrightarrow> \<exists>r. expand_line m line = Some r"
proof (induction m arbitrary: line)
  case Nil
  show ?case by simp
next
  case (Cons e m)
  obtain k v where e: "e = (k, v)" by (cases e)
  with Cons.prems have "k \<noteq> []" by simp
  from replace_loop_ends [OF this] obtain line' where "replace_loop k v line 0 = Some line'"
    by blast
  moreover from Cons.IH [of line'] Cons.prems obtain r where "expand_line m line' = Some r"
    by auto
  ultimately show ?case using e by simp
qed

lemma map_assign_named:
  "\<forall>(k, v)\<in>set m. k \<noteq> [] \<Longrightarrow> key \<noteq> [] \<Longrightarrow> \<forall>(k, v)\<in>set (map_assign m key w). k \<noteq> []"
  using map_assign_subset [of m key w] by auto

lemma process_lines_ends:
  assumes "\<forall>(k, v)\<in>set m. k \<noteq> []"
    "\<forall>l\<in>set ls. is_directive l \<longrightarrow> fst (parse_define l) \<noteq> []"
  shows "\<exists>r. process_lines m ls acc = Some r"
  using assms
proof (induction ls arbitrary: m acc)
  case Nil
  show ?case by simp
next
  case (Cons line ls)
  show ?case
  proof (cases "is_directive line")
    case True
    obtain key v where kv: "parse_define line = (key, v)" by (cases "parse_define line")
    with True Cons.prems(2) have "key \<noteq> []" by auto
    with Cons.prems(1) have "\<forall>(k, v)\<in>set (map_assign m key v). k \<noteq> []"
      by (rule map_assign_named)
    from Cons.IH [OF this, of acc] Cons.prems(2) True kv show ?thesis by simp
  next
    case False
    from expand_line_ends [OF Cons.prems(1)] obtain line' where
      "expand_line m line = Some line'" by blast
    with Cons.IH [OF Cons.prems(1), of "acc @ line' @ [newline]"] Cons.prems(2) False
    show ?thesis by simp
  qed
qed

section \<open>The claims\<close>

text \<open>
  C1. Pass 1 is meant to build the call table and nothing else, so that the emission buffer
  is empty when pass 2 starts. The code does otherwise: \<^verbatim>\<open>parseStatement\<close> looks at
  \<^verbatim>\<open>isFirstPass\<close> only in the identifier branch, and its keyword branch and its last branch
  write their line in pass 1 as well. On the one-keyword input \<^verbatim>\<open>select\<close> the buffer holds
  the line \<^verbatim>\<open>select\<close> after pass 1, and the final text holds that line twice.
\<close>

theorem C1_first_pass_writes_output:
  "formattedCode (firstPass (new_Parser
      [\<lparr>tok_type = KEYWORD, tok_value = ''select'', tok_line = 1\<rparr>,
       \<lparr>tok_type = END_OF_FILE, tok_value = [], tok_line = 1\<rparr>])) = ''select\<newline>''
   \<and> tokenize ''select'' = [\<lparr>tok_type = KEYWORD, tok_value = ''select'', tok_line = 1\<rparr>,
       \<lparr>tok_type = END_OF_FILE, tok_value = [], tok_line = 1\<rparr>]
   \<and> main ''select'' = Some ''select\<newline>select\<newline>''"
  by code_simp

text \<open>
  C2. The end-to-end example \<^verbatim>\<open>select a(1,"x") from t\<close> without macros. The token sequence
  and the call table entry of \<^verbatim>\<open>a\<close> are as the claim gives them. The final text is not:
  it starts with the keyword line \<^verbatim>\<open>select\<close> twice, the first one written during pass 1
  (the defect of C1), followed by the other six lines of the claim.
\<close>

theorem C2_end_to_end_example:
  "process (''select a(1,'' @ [dquote] @ ''x'' @ [dquote] @ '') from t'')
     = Some (''select a(1,'' @ [dquote] @ ''x'' @ [dquote] @ '') from t\<newline>'')
   \<and> map (\<lambda>t. (tok_type t, tok_value t))
        (tokenize (''select a(1,'' @ [dquote] @ ''x'' @ [dquote] @ '') from t\<newline>''))
     = [(KEYWORD, ''select''), (IDENTIFIER, ''a''), (SYMBOL, ''(''), (LITERAL, ''1''),
        (SYMBOL, '',''), (STRING_LITERAL, ''x''), (SYMBOL, '')''), (IDENTIFIER, ''from''),
        (IDENTIFIER, ''t''), (END_OF_FILE, [])]
   \<and> functionTable (firstPass (new_Parser
        (tokenize (''select a(1,'' @ [dquote] @ ''x'' @ [dquote] @ '') from t\<newline>'')))) ''a''
     = Some \<lparr>sig_name = ''a'', argumentTypes = [''1'', ''x''], sig_line = 1\<rparr>
   \<and> main (''select a(1,'' @ [dquote] @ ''x'' @ [dquote] @ '') from t'')
     = Some ''select\<newline>select\<newline>a (\<newline>);\<newline>from (\<newline>);\<newline>t (\<newline>);\<newline>''"
  by code_simp

text \<open>
  C3. Macro expansion is claimed to terminate on every input, a \<^verbatim>\<open>#define\<close> line without
  a name being a definition with the empty name and no effect. In the code such a line
  stores the empty name with the empty replacement, and from then on the replacement loop
  finds the empty name at position 0 of any line, replaces nothing and stays at position 0:
  it never returns, for any line. On the two-line input \<^verbatim>\<open>#define\<close>, \<^verbatim>\<open>x\<close> the
  preprocessor, and so the program, does not return.
\<close>

theorem C3_define_without_name_loops:
  "parse_define ''#define'' = ([], [])
   \<and> expand_line (map_assign [] [] []) line = None
   \<and> process ''#define\<newline>x'' = None
   \<and> main ''#define\<newline>x'' = None"
proof -
  have g: "getlines ''#define\<newline>x'' = [''#define'', ''x'']" by code_simp
  have d: "is_directive ''#define''" by code_simp
  have p: "parse_define ''#define'' = ([], [])" by code_simp
  have n: "\<not> is_directive ''x''" by code_simp
  have l: "replace_loop [] [] s 0 = None" for s by (rule replace_loop_empty_name) simp
  from g d p n l [of "''x''"] have "process ''#define\<newline>x'' = None"
    by (simp add: process_def)
  with p l [of line] show ?thesis by (simp add: main_def)
qed

text \<open>
  C4. The branch of pass 2 that writes the Unknown function line is never taken when the
  call table comes from pass 1 over the same tokens. Pass 2 takes that branch only when
  the lookup of the name fails. In every state that the loop of pass 2 reaches, started on
  the parser that pass 1 has left, a statement that is a call finds its name in the
  table: the statement is handled by \<^verbatim>\<open>validateFunctionCall\<close>, and what it writes is the
  line \<^verbatim>\<open>name (\<close>, the missing-parenthesis line or not, the arity line or not, and
  \<^verbatim>\<open>);\<close>.
\<close>

theorem C4_unknown_function_unreachable:
  "pass_reaches False ((firstPass (new_Parser ts))\<lparr>position := 0\<rparr>) Q \<and> call_statement Q \<longrightarrow>
     parseStatement False Q = validateFunctionCall Q
     \<and> (\<exists>signature. functionTable Q (tok_value (ppeek Q)) = Some signature
          \<and> formattedCode (validateFunctionCall Q) =
              formattedCode Q
              @ indentation Q @ tok_value (ppeek Q) @ '' ('' @ [newline]
              @ (if tok_value (ppeek (snd (argument_loop (snd (padvance (snd (padvance Q)))) [])))
                    = '')''
                 then [] else indentation Q @ missing_paren_message @ [newline])
              @ (if length (argumentTypes signature)
                    \<noteq> length (fst (argument_loop (snd (padvance (snd (padvance Q)))) []))
                 then indentation Q
                      @ arity_message (tok_value (ppeek Q)) (sig_line signature)
                          (length (argumentTypes signature))
                          (length (fst (argument_loop (snd (padvance (snd (padvance Q)))) [])))
                      @ [newline]
                 else [])
              @ indentation Q @ '');'' @ [newline])"
proof (intro impI, elim conjE)
  let ?P1 = "new_Parser ts"
  let ?P2 = "(firstPass ?P1)\<lparr>position := 0\<rparr>"
  assume r: "pass_reaches False ?P2 Q" and c: "call_statement Q"
  have t: "tokens ?P2 = tokens ?P1" "position ?P2 = position ?P1"
    using pass_reaches_tokens [OF pass_loop_reached [of True ?P1]]
    by (simp_all add: firstPass_def new_Parser_def)
  from second_pass_follows_first [OF r t]
  obtain Q1 where q1: "pass_reaches True ?P1 Q1" "tokens Q1 = tokens Q" "position Q1 = position Q"
    by blast
  have k: "ppeek Q1 = ppeek Q" using q1(2,3) by (rule ppeek_cursor)
  have "call_statement Q1" using c call_statement_cursor [OF q1(2,3)] by simp
  from first_pass_registers [OF q1(1) this] k
  have "functionTable (firstPass ?P1) (tok_value (ppeek Q)) \<noteq> None" by (simp add: firstPass_def)
  moreover have "functionTable Q = functionTable (firstPass ?P1)"
    using pass_reaches_second_table [OF r] by simp
  ultimately obtain signature where sg: "functionTable Q (tok_value (ppeek Q)) = Some signature"
    by auto
  have v: "parseStatement False Q = validateFunctionCall Q"
    using c by (simp add: parseStatement_def call_statement_def)
  from c sg have "tok_value (ppeek (snd (padvance Q))) = ''('' \<and>
    functionTable Q (tok_value (ppeek Q)) = Some signature"
    by (simp add: call_statement_def)
  from validateFunctionCall_known [OF this] sg v
  show "parseStatement False Q = validateFunctionCall Q
     \<and> (\<exists>signature. functionTable Q (tok_value (ppeek Q)) = Some signature
          \<and> formattedCode (validateFunctionCall Q) =
              formattedCode Q
              @ indentation Q @ tok_value (ppeek Q) @ '' ('' @ [newline]
              @ (if tok_value (ppeek (snd (argument_loop (snd (padvance (snd (padvance Q)))) [])))
                    = '')''
                 then [] else indentation Q @ missing_paren_message @ [newline])
              @ (if length (argumentTypes signature)
                    \<noteq> length (fst (argument_loop (snd (padvance (snd (padvance Q)))) []))
                 then indentation Q
                      @ arity_message (tok_value (ppeek Q)) (sig_line signature)
                          (length (argumentTypes signature))
                          (length (fst (argument_loop (snd (padvance (snd (padvance Q)))) [])))
                      @ [newline]
                 else [])
              @ indentation Q @ '');'' @ [newline])"
    by (simp add: missing_paren_message_def arity_message_def)
qed

theorem C4_unknown_function_unreachable_witness:
  "pass_reaches False ((firstPass (new_Parser (tokenize ''a(1,2) a(3)'')))\<lparr>position := 0\<rparr>)
     (parseStatement False ((firstPass (new_Parser (tokenize ''a(1,2) a(3)'')))\<lparr>position := 0\<rparr>))
   \<and> call_statement
     (parseStatement False ((firstPass (new_Parser (tokenize ''a(1,2) a(3)'')))\<lparr>position := 0\<rparr>))
   \<and> functionTable
     (parseStatement False ((firstPass (new_Parser (tokenize ''a(1,2) a(3)'')))\<lparr>position := 0\<rparr>))
     ''a'' \<noteq> None"
proof -
  define P2 where "P2 = (firstPass (new_Parser (tokenize ''a(1,2) a(3)'')))\<lparr>position := 0\<rparr>"
  define Q where "Q = parseStatement False P2"
  have ne: "tok_type (ppeek P2) \<noteq> END_OF_FILE" unfolding P2_def by code_simp
  have r: "pass_reaches False P2 Q"
    unfolding Q_def using pass_reaches.start ne by (rule pass_reaches.step)
  have c: "call_statement Q" unfolding Q_def P2_def by code_simp
  have na: "tok_value (ppeek Q) = ''a''" unfolding Q_def P2_def by code_simp
  from C4_unknown_function_unreachable [of "tokenize ''a(1,2) a(3)''" Q] r c
  have "functionTable Q (tok_value (ppeek Q)) \<noteq> None"
    unfolding P2_def by auto
  with r c show ?thesis
    unfolding na unfolding Q_def P2_def by simp
qed

text \<open>
  C5. The expanded text is claimed to have as many lines as the input, directive lines
  included. A \<^verbatim>\<open>#define\<close> line is consumed: it changes the macro table and writes no
  line. The two-line input \<^verbatim>\<open>#define A b\<close>, \<^verbatim>\<open>A\<close> expands to the single line \<^verbatim>\<open>b\<close>.
\<close>

theorem C5_counterexample:
  "length (getlines ''#define A b\<newline>A'') = 2
   \<and> process ''#define A b\<newline>A'' = Some ''b\<newline>''
   \<and> length (getlines ''b\<newline>'') = 1"
  by code_simp

text \<open>
  C5, amended. Whenever the expander returns, the expanded text has one line for each
  input line that is not a directive line (lines counted as \<^verbatim>\<open>std::getline\<close> reads
  them); and the expander returns whenever every directive line has a name.
\<close>

theorem C5_line_count:
  "(process s = Some out \<longrightarrow>
      length (getlines out) = length (filter (\<lambda>l. \<not> is_directive l) (getlines s)))
   \<and> ((\<forall>l\<in>set (getlines s). is_directive l \<longrightarrow> fst (parse_define l) \<noteq> []) \<longrightarrow>
      (\<exists>out. process s = Some out))"
proof (intro conjI impI)
  assume "process s = Some out"
  then have p: "process_lines [] (getlines s) [] = Some out" by (simp add: process_def)
  have "\<forall>l\<in>set (getlines s). one_line l" by (auto intro: getlines_one_line)
  from process_lines_lines [OF p _ this] obtain ls where
    ls: "out = join_lines ls" "\<forall>l\<in>set ls. one_line l"
      "length ls = length (filter (\<lambda>l. \<not> is_directive l) (getlines s))" by auto
  from getlines_join_lines [OF ls(2)] ls(1,3)
  show "length (getlines out) = length (filter (\<lambda>l. \<not> is_directive l) (getlines s))" by simp
next
  assume "\<forall>l\<in>set (getlines s). is_directive l \<longrightarrow> fst (parse_define l) \<noteq> []"
  from process_lines_ends [OF _ this, of "[]" "[]"]
  show "\<exists>out. process s = Some out" by (simp add: process_def)
qed

theorem C5_line_count_witness:
  "process ''#define A b\<newline>A\<newline>x'' = Some ''b\<newline>x\<newline>''
   \<and> length (getlines ''b\<newline>x\<newline>'') = 2
   \<and> length (filter (\<lambda>l. \<not> is_directive l) (getlines ''#define A b\<newline>A\<newline>x'')) = 2"
proof -
  have h: "\<forall>l\<in>set (getlines ''#define A b\<newline>A\<newline>x'').
      is_directive l \<longrightarrow> fst (parse_define l) \<noteq> []" by code_simp
  have p: "process ''#define A b\<newline>A\<newline>x'' = Some ''b\<newline>x\<newline>''" by code_simp
  have n: "length (filter (\<lambda>l. \<not> is_directive l) (getlines ''#define A b\<newline>A\<newline>x'')) = 2"
    by code_simp
  from C5_line_count [of "''#define A b\<newline>A\<newline>x''" "''b\<newline>x\<newline>''"] h p
  have "length (getlines ''b\<newline>x\<newline>'')
      = length (filter (\<lambda>l. \<not> is_directive l) (getlines ''#define A b\<newline>A\<newline>x''))"
    by blast
  with p n show ?thesis by (simp only: simp_thms)
qed








text \<open>
  C8. For the input \<^verbatim>\<open>f(1,2\<close>, whose parenthesis is never closed, the final text is the
  three lines \<^verbatim>\<open>f (\<close>, the diagnostic
  \<^verbatim>\<open>-- Error: Missing closing parenthesis for function call.\<close> and \<^verbatim>\<open>);\<close>: the
  diagnostic once, no other diagnostic, and both wrapping lines.
\<close>

theorem C8_missing_closing_parenthesis:
  "main ''f(1,2'' =
     Some ''f (\<newline>-- Error: Missing closing parenthesis for function call.\<newline>);\<newline>''
   \<and> map_option getlines (main ''f(1,2'') =
     Some [''f ('', ''-- Error: Missing closing parenthesis for function call.'', '');'']"
  by code_simp

text \<open>
  C9. The tokens end with exactly one \<^verbatim>\<open>END_OF_FILE\<close> token, on the line reached at the
  end of the input, and their texts are claimed to give back every letter, digit and
  punctuation character of the input. The double quote is a punctuation character, and
  the quotes around a string literal are left out of its text on purpose: for the input
  \<^verbatim>\<open>"x"\<close> the texts give \<^verbatim>\<open>x\<close>, without the two quotes.
\<close>

theorem C9_counterexample:
  "concat (map tok_value (tokenize [dquote, CHR ''x'', dquote])) = ''x''
   \<and> filter (\<lambda>c. isalnum c \<or> ispunct c) [dquote, CHR ''x'', dquote]
       = [dquote, CHR ''x'', dquote]
   \<and> concat (map tok_value (tokenize [dquote, CHR ''x'', dquote]))
       \<noteq> filter (\<lambda>c. isalnum c \<or> ispunct c) [dquote, CHR ''x'', dquote]"
  by code_simp

text \<open>
  C9, amended. For every input the last token, and no other, is \<^verbatim>\<open>END_OF_FILE\<close>, and its
  line is the final line reached. The texts of the tokens, in order, are \<open>kept False\<close> of
  the input: outside string literals the letters, digits and punctuation characters except
  the double quotes; inside a string literal every character (whitespace too) up to its
  closing quote or up to a NUL byte, whichever comes first, the quotes and that NUL byte
  being dropped. For an input without a double quote that is every letter, digit and
  punctuation character of the input, and nothing else.
\<close>

theorem C9_tokenizer_coverage:
  "last (tokenize s) = \<lparr>tok_type = END_OF_FILE, tok_value = [], tok_line = final_line s\<rparr>
   \<and> filter (\<lambda>t. tok_type t = END_OF_FILE) (tokenize s)
       = [\<lparr>tok_type = END_OF_FILE, tok_value = [], tok_line = final_line s\<rparr>]
   \<and> concat (map tok_value (tokenize s)) = kept False s
   \<and> (dquote \<notin> set s \<longrightarrow>
        concat (map tok_value (tokenize s)) = filter (\<lambda>c. isalnum c \<or> ispunct c) s)"
proof -
  from tokenize_loop_spec [of "new_Lexer s" "[]"]
  obtain ts where ts: "tokenize s = ts @ [\<lparr>tok_type = END_OF_FILE, tok_value = [],
        tok_line = final_line s\<rparr>]"
    "filter (\<lambda>t. tok_type t = END_OF_FILE) ts = []"
    "concat (map tok_value ts) = kept False s"
    by (auto simp: tokenize_def new_Lexer_def rest_def final_line_def)
  then show ?thesis by (simp add: kept_no_quote)
qed

theorem C9_tokenizer_coverage_witness:
  "dquote \<notin> set ''a b\<newline>c;''
   \<and> concat (map tok_value (tokenize ''a b\<newline>c;'')) = ''abc;''
   \<and> last (tokenize ''a b\<newline>c;'') = \<lparr>tok_type = END_OF_FILE, tok_value = [], tok_line = 2\<rparr>"
proof -
  have h: "dquote \<notin> set ''a b\<newline>c;''" by code_simp
  have e1: "filter (\<lambda>c. isalnum c \<or> ispunct c) ''a b\<newline>c;'' = ''abc;''" by code_simp
  have e2: "final_line ''a b\<newline>c;'' = 2" by code_simp
  from C9_tokenizer_coverage [of "''a b\<newline>c;''"]
  have a: "dquote \<notin> set ''a b\<newline>c;'' \<longrightarrow> concat (map tok_value (tokenize ''a b\<newline>c;''))
        = filter (\<lambda>c. isalnum c \<or> ispunct c) ''a b\<newline>c;''"
    and b: "last (tokenize ''a b\<newline>c;'')
        = \<lparr>tok_type = END_OF_FILE, tok_value = [], tok_line = final_line ''a b\<newline>c;''\<rparr>"
    by blast+
  from a h have "concat (map tok_value (tokenize ''a b\<newline>c;''))
        = filter (\<lambda>c. isalnum c \<or> ispunct c) ''a b\<newline>c;''" by blast
  then have c: "concat (map tok_value (tokenize ''a b\<newline>c;'')) = ''abc;''"
    by (simp only: e1)
  from b have d: "last (tokenize ''a b\<newline>c;'')
      = \<lparr>tok_type = END_OF_FILE, tok_value = [], tok_line = 2\<rparr>"
    by (simp only: e2)
  from h c d show ?thesis by blast
qed

text \<open>
  C10. Argument collection does not recognise nesting. As claimed, for \<^verbatim>\<open>f(g(1))\<close>
  pass 1 records \<^verbatim>\<open>f\<close> with the arguments \<^verbatim>\<open>g\<close> and \<^verbatim>\<open>1\<close> and nothing for \<^verbatim>\<open>g\<close>, and
  the outer \<^verbatim>\<open>)\<close> is a statement of its own, for which pass 2 writes one more \<^verbatim>\<open>);\<close>.
  The general sentence, that every literal, identifier and string literal before the
  first \<^verbatim>\<open>)\<close> is recorded, needs a proviso: the loop skips a token after each one it has
  looked at when its text is \<^verbatim>\<open>,\<close>, whatever its kind. For \<^verbatim>\<open>f(1",")\<close> the string
  literal \<^verbatim>\<open>","\<close> is skipped as if it were a comma, and only \<^verbatim>\<open>1\<close> is recorded.
\<close>

theorem C10_counterexample:
  "tokenize (''f(1'' @ [dquote] @ '','' @ [dquote] @ '')'')
     = [\<lparr>tok_type = IDENTIFIER, tok_value = ''f'', tok_line = 1\<rparr>,
        \<lparr>tok_type = SYMBOL, tok_value = ''('', tok_line = 1\<rparr>,
        \<lparr>tok_type = LITERAL, tok_value = ''1'', tok_line = 1\<rparr>,
        \<lparr>tok_type = STRING_LITERAL, tok_value = '','', tok_line = 1\<rparr>,
        \<lparr>tok_type = SYMBOL, tok_value = '')'', tok_line = 1\<rparr>,
        \<lparr>tok_type = END_OF_FILE, tok_value = [], tok_line = 1\<rparr>]
   \<and> functionTable (firstPass (new_Parser
        (tokenize (''f(1'' @ [dquote] @ '','' @ [dquote] @ '')'')))) ''f''
     = Some \<lparr>sig_name = ''f'', argumentTypes = [''1''], sig_line = 1\<rparr>
   \<and> intervening_arguments (drop 2 (tokenize (''f(1'' @ [dquote] @ '','' @ [dquote] @ '')'')))
     = [''1'', '','']"
  by code_simp

text \<open>
  C10, amended. The loop looks at one token after another; after each token it has looked
  at, it passes over the next token unseen when the text of that token is \<^verbatim>\<open>,\<close>, whatever
  its kind. It stops at the first token it looks at whose text is \<^verbatim>\<open>)\<close> or which ends the
  tokens, and it records the texts of exactly the literals, identifiers and string literals
  it has looked at, in order. When no \<^verbatim>\<open>END_OF_FILE\<close> token has the text \<^verbatim>\<open>,\<close>, as in
  every output of the tokenizer, the stop is the first token whose text is \<^verbatim>\<open>)\<close> or which
  ends the tokens. When moreover no literal, identifier or string literal before the stop
  has the text \<^verbatim>\<open>,\<close>, the arguments recorded are all the literals, identifiers and string
  literals before the stop. The example \<^verbatim>\<open>f(g(1))\<close> is as claimed; the text of pass 2
  follows the line \<^verbatim>\<open>);\<close> that pass 1 has written for the outer parenthesis.
\<close>

theorem C10_no_nesting:
  "fst (argument_loop P a)
     = a @ map tok_value (filter is_argument (looked_at False (drop (position P) (tokens P))))
   \<and> ((\<forall>t\<in>set (drop (position P) (tokens P)). tok_type t = END_OF_FILE \<longrightarrow> tok_value t \<noteq> '','')
      \<longrightarrow> position (snd (argument_loop P a)) = position P
          + length (takeWhile (\<lambda>t. \<not> closes_arguments t) (drop (position P) (tokens P))))
   \<and> ((\<forall>t\<in>set (drop (position P) (tokens P)). tok_type t = END_OF_FILE \<longrightarrow> tok_value t \<noteq> '','')
      \<and> (\<forall>t\<in>set (takeWhile (\<lambda>t. \<not> closes_arguments t) (drop (position P) (tokens P))).
            is_argument t \<longrightarrow> tok_value t \<noteq> '','')
      \<longrightarrow> fst (argument_loop P a) = a @ intervening_arguments (drop (position P) (tokens P)))
   \<and> functionTable (firstPass (new_Parser (tokenize ''f(g(1))''))) ''f''
       = Some \<lparr>sig_name = ''f'', argumentTypes = [''g'', ''1''], sig_line = 1\<rparr>
   \<and> functionTable (firstPass (new_Parser (tokenize ''f(g(1))''))) ''g'' = None
   \<and> formattedCode (firstPass (new_Parser (tokenize ''f(g(1))''))) = '');\<newline>''
   \<and> secondPass (firstPass (new_Parser (tokenize ''f(g(1))'')))
       = '');\<newline>'' @ ''f (\<newline>);\<newline>);\<newline>''"
proof -
  have ex: "functionTable (firstPass (new_Parser (tokenize ''f(g(1))''))) ''f''
       = Some \<lparr>sig_name = ''f'', argumentTypes = [''g'', ''1''], sig_line = 1\<rparr>
   \<and> functionTable (firstPass (new_Parser (tokenize ''f(g(1))''))) ''g'' = None
   \<and> formattedCode (firstPass (new_Parser (tokenize ''f(g(1))''))) = '');\<newline>''
   \<and> secondPass (firstPass (new_Parser (tokenize ''f(g(1))'')))
       = '');\<newline>'' @ ''f (\<newline>);\<newline>);\<newline>''"
    by code_simp
  note l = argument_loop_looked_at [of P a]
  have "fst (argument_loop P a) = a @ intervening_arguments (drop (position P) (tokens P))"
    if "\<forall>t\<in>set (drop (position P) (tokens P)). tok_type t = END_OF_FILE \<longrightarrow> tok_value t \<noteq> '',''"
      and "\<forall>t\<in>set (takeWhile (\<lambda>t. \<not> closes_arguments t) (drop (position P) (tokens P))).
            is_argument t \<longrightarrow> tok_value t \<noteq> '',''"
    using l looked_at_intervening [OF that, of False] by (simp add: intervening_arguments_def)
  with l ex show ?thesis by blast
qed

theorem C10_no_nesting_witness:
  "fst (argument_loop
        \<lparr>tokens = tokenize (''f(1,g,'' @ [dquote] @ ''x'' @ [dquote] @ '')''), position = 2,
         indentLevel = 0, formattedCode = [], functionTable = Map.empty\<rparr> []) = [''1'', ''g'', ''x'']
   \<and> position (snd (argument_loop
        \<lparr>tokens = tokenize (''f(1,g,'' @ [dquote] @ ''x'' @ [dquote] @ '')''), position = 2,
         indentLevel = 0, formattedCode = [], functionTable = Map.empty\<rparr> [])) = 7
   \<and> position (snd (argument_loop
        \<lparr>tokens = tokenize (''f(1'' @ [dquote] @ '','' @ [dquote] @ '')''), position = 2,
         indentLevel = 0, formattedCode = [], functionTable = Map.empty\<rparr> [])) = 4"
proof -
  define ts where "ts = tokenize (''f(1,g,'' @ [dquote] @ ''x'' @ [dquote] @ '')'')"
  define us where "us = tokenize (''f(1'' @ [dquote] @ '','' @ [dquote] @ '')'')"
  define P where "P = \<lparr>tokens = ts, position = 2, indentLevel = 0,
    formattedCode = [], functionTable = Map.empty\<rparr>"
  define Q where "Q = \<lparr>tokens = us, position = 2, indentLevel = 0,
    formattedCode = [], functionTable = Map.empty\<rparr>"
  have h1: "\<forall>t\<in>set (drop 2 ts). tok_type t = END_OF_FILE \<longrightarrow> tok_value t \<noteq> '',''"
    unfolding ts_def by code_simp
  have h2: "\<forall>t\<in>set (takeWhile (\<lambda>t. \<not> closes_arguments t) (drop 2 ts)).
      is_argument t \<longrightarrow> tok_value t \<noteq> '',''"
    unfolding ts_def by code_simp
  have h3: "\<forall>t\<in>set (drop 2 us). tok_type t = END_OF_FILE \<longrightarrow> tok_value t \<noteq> '',''"
    unfolding us_def by code_simp
  have e: "intervening_arguments (drop 2 ts) = [''1'', ''g'', ''x'']"
    "length (takeWhile (\<lambda>t. \<not> closes_arguments t) (drop 2 ts)) = 5"
    "length (takeWhile (\<lambda>t. \<not> closes_arguments t) (drop 2 us)) = 2"
    unfolding ts_def us_def by code_simp+
  have pt: "position P = 2" "tokens P = ts" "position Q = 2" "tokens Q = us"
    by (simp_all add: P_def Q_def)
  from h1 h2 h3
  have g1: "\<forall>t\<in>set (drop (position P) (tokens P)). tok_type t = END_OF_FILE \<longrightarrow> tok_value t \<noteq> '',''"
    and g2: "\<forall>t\<in>set (takeWhile (\<lambda>t. \<not> closes_arguments t) (drop (position P) (tokens P))).
      is_argument t \<longrightarrow> tok_value t \<noteq> '',''"
    and g3: "\<forall>t\<in>set (drop (position Q) (tokens Q)). tok_type t = END_OF_FILE \<longrightarrow> tok_value t \<noteq> '',''"
    by (simp_all only: pt)
  from C10_no_nesting [of P "[]"] g1 g2
  have "fst (argument_loop P []) = [] @ intervening_arguments (drop (position P) (tokens P))"
    and "position (snd (argument_loop P [])) = position P
          + length (takeWhile (\<lambda>t. \<not> closes_arguments t) (drop (position P) (tokens P)))"
    by blast+
  then have r1: "fst (argument_loop P []) = [''1'', ''g'', ''x'']"
    and r2: "position (snd (argument_loop P [])) = 7"
    by (simp_all add: pt e)
  from C10_no_nesting [of Q "[]"] g3
  have "position (snd (argument_loop Q [])) = position Q
          + length (takeWhile (\<lambda>t. \<not> closes_arguments t) (drop (position Q) (tokens Q)))"
    by blast
  then have r3: "position (snd (argument_loop Q [])) = 4"
    by (simp add: pt e)
  from r1 r2 r3 show ?thesis unfolding P_def Q_def ts_def us_def by simp
qed


end
